theory Spec2Isabelle
  imports Main "HOL-Library.Word" "HOL-Library.Sublist" "HOL-Library.AList"
begin

unbundle bit_operations_syntax

section \<open>The debug MQTT broker of \<open>debug_mqtt_server/main.cpp\<close>\<close>

text \<open>
  Integer model (LP64, two's complement): \<open>uint8_t\<close> is \<open>8 word\<close>, \<open>uint16_t\<close> is
  \<open>16 word\<close>, \<open>int\<close> is \<open>32 word\<close> read as signed, \<open>size_t\<close> is \<open>64 word\<close>.
  Positions inside a buffer (\<open>offset\<close>, \<open>consumed\<close>, \<open>pos\<close>) and buffer sizes are
  \<open>nat\<close>: they are bounded by a few bytes above the size of a vector and cannot wrap.
  The product \<open>(encoded & 127) * multiplier\<close> and \<open>multiplier *= 128\<close> are \<open>int\<close>
  arithmetic; where they exceed 31 bits the model wraps them (what the usual compilers
  emit for this code), and the conversion of the \<open>int\<close> product to \<open>size_t\<close> for
  \<open>length +=\<close> is the sign extension \<open>scast\<close>.
\<close>

type_synonym byte = "8 word"

subsection \<open>Remaining Length codec\<close>

text \<open>
  \<open>decodeRemainingLength(buf, offset, length)\<close>: the result is the returned bool with
  the final values of the two reference parameters \<open>offset\<close> and \<open>length\<close>.
\<close>

function decodeRemainingLength_loop ::
  "byte list \<Rightarrow> nat \<Rightarrow> 32 word \<Rightarrow> 64 word \<Rightarrow> nat \<Rightarrow> bool \<times> nat \<times> 64 word" where
  "decodeRemainingLength_loop buf offset multiplier len consumed =
     (if offset + consumed < length buf then
        (let encoded = buf ! (offset + consumed);
             len' = len + scast ((ucast (encoded AND 127) :: 32 word) * multiplier);
             multiplier' = multiplier * 128;
             consumed' = consumed + 1
         in if encoded AND 128 = 0 then (True, offset + consumed', len')
            else if consumed' > 4 then (False, offset, len')
            else decodeRemainingLength_loop buf offset multiplier' len' consumed')
      else (False, offset, len))"
  by pat_completeness auto
termination
  by (relation "measure (\<lambda>(buf, offset, multiplier, len, consumed). 5 - consumed)") auto

declare decodeRemainingLength_loop.simps [simp del]

definition decodeRemainingLength :: "byte list \<Rightarrow> nat \<Rightarrow> bool \<times> nat \<times> 64 word" where
  "decodeRemainingLength buf offset = decodeRemainingLength_loop buf offset 1 0 0"

text \<open>\<open>encodeRemainingLength(length)\<close>: the do-while loop, \<open>out\<close> being the vector built so far.\<close>

function encodeRemainingLength_loop :: "64 word \<Rightarrow> byte list \<Rightarrow> byte list" where
  "encodeRemainingLength_loop len out =
     (let encoded = (ucast (len mod 128) :: byte);
          len' = len div 128;
          encoded' = (if len' > 0 then encoded OR 128 else encoded);
          out' = out @ [encoded']
      in if len' > 0 then encodeRemainingLength_loop len' out' else out')"
  by pat_completeness auto
termination
proof (relation "measure (\<lambda>(len, out). unat len)")
  show "wf (measure (\<lambda>(len, out). unat len))" by simp
next
  fix len :: "64 word" and out :: "byte list" and x xa xb xc
  assume "xa = len div 128" and "0 < xa"
  then have "0 < unat len div 128"
    by (simp add: word_less_nat_alt unat_div)
  then have "unat len div 128 < unat len"
    by simp
  then show "((xa, xc), (len, out)) \<in> measure (\<lambda>(len, out). unat len)"
    using \<open>xa = len div 128\<close> by (simp add: unat_div)
qed

declare encodeRemainingLength_loop.simps [simp del]

definition encodeRemainingLength :: "64 word \<Rightarrow> byte list" where
  "encodeRemainingLength len = encodeRemainingLength_loop len []"

subsection \<open>Sessions, configuration, observable effects\<close>

text \<open>
  \<open>std::string\<close> values taken from packets are byte lists; \<open>std::set<std::string>\<close> is a
  set of byte lists. File descriptors and the \<open>int\<close> fields of \<open>Config\<close> are only
  stored and compared, never computed with, and are \<open>int\<close>.
\<close>

record ClientSession =
  fd :: int
  clientId :: "byte list"
  subscriptions :: "byte list set"
  inbox :: "byte list"

record Config =
  port :: int
  maxClients :: int
  logPackets :: bool
  traceSubscriptions :: bool
  traceMessages :: bool
  quiet :: bool
  artificialDelayMs :: int

definition defaultSession :: ClientSession where
  "defaultSession = \<lparr>fd = -1, clientId = [0x3F], subscriptions = {}, inbox = []\<rparr>"

definition defaultConfig :: Config where
  "defaultConfig = \<lparr>port = 1883, maxClients = 8, logPackets = False,
     traceSubscriptions = False, traceMessages = True, quiet = False,
     artificialDelayMs = 0\<rparr>"

text \<open>
  What the broker does to the outside world, in program order: \<open>Send fd data\<close> is a call
  \<open>sendAll(fd, data)\<close>, \<open>Close fd\<close> a call \<open>close(fd)\<close>, \<open>Sleep ms\<close> the artificial
  delay, and one constructor per line written to \<open>std::cout\<close>.
\<close>

datatype event =
    Send int "byte list"
  | Close int
  | Sleep int
  | LogRaw byte "byte list"
  | LogConnect "byte list"
  | LogPublish "byte list" "byte list" "byte list"
  | LogForwarded "byte list" "byte list"
  | LogSubscribe "byte list" "byte list"
  | LogPing "byte list"
  | LogDisconnect "byte list"
  | LogWarnUnhandled byte
  | LogCloseFd int
  | LogAccept int
  | LogDrop

text \<open>\<open>log(msg, quiet)\<close>\<close>

definition log :: "event \<Rightarrow> bool \<Rightarrow> event list" where
  "log msg q = (if \<not> q then [msg] else [])"

text \<open>
  The session table \<open>std::map<int, ClientSession>\<close> is an association list, iterated from
  its head as the map is iterated in key order. A \<open>ClientSession &\<close> into the table is
  the key of the entry; reading it is \<open>map_of\<close>, writing it is \<open>AList.update\<close>.
  Whether \<open>sendAll(fd, data)\<close> returns true is the network's answer \<open>net fd data\<close>.
\<close>

type_synonym clients = "(int \<times> ClientSession) list"
type_synonym network = "int \<Rightarrow> byte list \<Rightarrow> bool"

definition connack :: "byte list" where
  "connack = [0x20, 0x02, 0x00, 0x00]"

definition puback :: "16 word \<Rightarrow> byte list" where
  "puback packetId = [0x40, 0x02, ucast (drop_bit 8 packetId), ucast (packetId AND 0xFF)]"

definition suback :: "16 word \<Rightarrow> byte \<Rightarrow> byte list" where
  "suback packetId qos =
     [0x90, 0x03, ucast (drop_bit 8 packetId), ucast (packetId AND 0xFF), qos]"

definition pingResp :: "byte list" where
  "pingResp = [0xD0, 0x00]"

definition sendConnack :: "int \<Rightarrow> event list" where
  "sendConnack f = [Send f connack]"

definition sendPuback :: "int \<Rightarrow> 16 word \<Rightarrow> event list" where
  "sendPuback f packetId = [Send f (puback packetId)]"

text \<open>\<open>sendSuback(fd, packetId, qos = 0x00)\<close>; its only call site passes no \<open>qos\<close>.\<close>

definition sendSuback :: "int \<Rightarrow> 16 word \<Rightarrow> event list" where
  "sendSuback f packetId = [Send f (suback packetId 0x00)]"

definition sendPingResp :: "int \<Rightarrow> event list" where
  "sendPingResp f = [Send f pingResp]"

definition buildPublish :: "byte list \<Rightarrow> byte list \<Rightarrow> byte list" where
  "buildPublish topic payload =
     (let variable = [ucast (drop_bit 8 (of_nat (length topic) :: 64 word)),
                      ucast ((of_nat (length topic) :: 64 word) AND 0xFF)] @ topic @ payload;
          encoded = encodeRemainingLength (of_nat (length variable))
      in [0x30] @ encoded @ variable)"

fun broadcast ::
  "network \<Rightarrow> byte list \<Rightarrow> byte list \<Rightarrow> clients \<Rightarrow> int \<Rightarrow> bool \<Rightarrow> event list" where
  "broadcast net topic payload [] senderFd verbose = []"
| "broadcast net topic payload ((k, s) # rest) senderFd verbose =
     (if k = senderFd then broadcast net topic payload rest senderFd verbose
      else if topic \<in> subscriptions s then
        (let pkt = buildPublish topic payload
         in Send k pkt
            # (if net k pkt \<and> verbose then [LogForwarded (clientId s) topic] else [])
            @ broadcast net topic payload rest senderFd verbose)
      else broadcast net topic payload rest senderFd verbose)"

subsection \<open>The protocol handler \<open>processPacket\<close>\<close>

text \<open>\<open>(packet[pos] << 8) | packet[pos + 1]\<close> stored in a \<open>uint16_t\<close>.\<close>

definition be16 :: "byte list \<Rightarrow> nat \<Rightarrow> 16 word" where
  "be16 packet pos = push_bit 8 (ucast (packet ! pos)) OR ucast (packet ! (pos + 1))"

text \<open>
  The cases of the \<open>switch\<close>. Each returns the session as the case leaves it and the
  effects of the case; a \<open>break\<close> out of a length check returns the session unchanged
  with no effect.
\<close>

definition case_CONNECT ::
  "Config \<Rightarrow> ClientSession \<Rightarrow> nat \<Rightarrow> byte list \<Rightarrow> ClientSession \<times> event list" where
  "case_CONNECT cfg client offset packet =
     (let pos = offset in
      if pos + 2 > length packet then (client, [])
      else
        let protoLen = unat (be16 packet pos);
            pos1 = pos + (2 + protoLen) in
        if pos1 + 4 > length packet then (client, [])
        else
          let pos2 = pos1 + 4 in
          if pos2 + 2 > length packet then (client, [])
          else
            let clientIdLen = unat (be16 packet pos2);
                pos3 = pos2 + 2;
                cid = (if pos3 + clientIdLen \<le> length packet
                       then take clientIdLen (drop pos3 packet) else []);
                client' = client\<lparr>clientId := (if cid = [] then clientId client else cid)\<rparr>
            in (client',
                log (LogConnect (clientId client')) (quiet cfg)
                @ (if artificialDelayMs cfg > 0 then [Sleep (artificialDelayMs cfg)] else [])
                @ sendConnack (fd client')))"

definition case_PUBLISH ::
  "Config \<Rightarrow> network \<Rightarrow> clients \<Rightarrow> ClientSession \<Rightarrow> byte \<Rightarrow> nat \<Rightarrow> byte list
    \<Rightarrow> ClientSession \<times> event list" where
  "case_PUBLISH cfg net clients client header offset packet =
     (let pos = offset in
      if pos + 2 > length packet then (client, [])
      else
        let topicLen = unat (be16 packet pos);
            pos1 = pos + 2 in
        if pos1 + topicLen > length packet then (client, [])
        else
          let topic = take topicLen (drop pos1 packet);
              pos2 = pos1 + topicLen;
              qos = drop_bit 1 header AND 0x03 in
          if qos > 0 then
            (if pos2 + 2 > length packet then (client, [])
             else
               let packetId = be16 packet pos2;
                   pos3 = pos2 + 2;
                   payload = (if pos3 < length packet then drop pos3 packet else [])
               in (client,
                   sendPuback (fd client) packetId
                   @ (if traceMessages cfg
                      then log (LogPublish (clientId client) topic payload) (quiet cfg) else [])
                   @ broadcast net topic payload clients (fd client) (traceMessages cfg)))
          else
            (let payload = (if pos2 < length packet then drop pos2 packet else [])
             in (client,
                 (if traceMessages cfg
                  then log (LogPublish (clientId client) topic payload) (quiet cfg) else [])
                 @ broadcast net topic payload clients (fd client) (traceMessages cfg))))"

text \<open>The \<open>while (pos + 2 <= packet.size())\<close> loop of the SUBSCRIBE case.\<close>

function case_SUBSCRIBE_loop ::
  "Config \<Rightarrow> byte list \<Rightarrow> nat \<Rightarrow> ClientSession \<Rightarrow> event list \<Rightarrow> ClientSession \<times> event list"
  where
  "case_SUBSCRIBE_loop cfg packet pos client evs =
     (if pos + 2 \<le> length packet then
        (let topicLen = unat (be16 packet pos);
             pos1 = pos + 2 in
         if pos1 + topicLen + 1 > length packet then (client, evs)
         else
           let topic = take topicLen (drop pos1 packet);
               pos2 = pos1 + topicLen + 1;
               client' = client\<lparr>subscriptions := insert topic (subscriptions client)\<rparr>;
               evs' = evs @ (if traceSubscriptions cfg
                             then log (LogSubscribe (clientId client') topic) (quiet cfg)
                             else [])
           in case_SUBSCRIBE_loop cfg packet pos2 client' evs')
      else (client, evs))"
  by pat_completeness auto
termination
  by (relation "measure (\<lambda>(cfg, packet, pos, client, evs). length packet - pos)") auto

declare case_SUBSCRIBE_loop.simps [simp del]

definition case_SUBSCRIBE ::
  "Config \<Rightarrow> ClientSession \<Rightarrow> nat \<Rightarrow> byte list \<Rightarrow> ClientSession \<times> event list" where
  "case_SUBSCRIBE cfg client offset packet =
     (let pos = offset in
      if pos + 2 > length packet then (client, [])
      else
        let packetId = be16 packet pos;
            pos1 = pos + 2;
            (client', evs) = case_SUBSCRIBE_loop cfg packet pos1 client []
        in (client', evs @ sendSuback (fd client') packetId))"

definition case_PINGREQ :: "Config \<Rightarrow> ClientSession \<Rightarrow> ClientSession \<times> event list" where
  "case_PINGREQ cfg client =
     (client, (if \<not> quiet cfg then [LogPing (clientId client)] else [])
              @ sendPingResp (fd client))"

definition case_DISCONNECT :: "Config \<Rightarrow> ClientSession \<Rightarrow> ClientSession \<times> event list" where
  "case_DISCONNECT cfg client =
     (client\<lparr>fd := -1\<rparr>, log (LogDisconnect (clientId client)) (quiet cfg) @ [Close (fd client)])"

text \<open>
  The \<open>switch (type)\<close>: the session and the effects of the case taken, and whether the
  \<open>while\<close> loop goes on afterwards (every case ends in \<open>break\<close> but DISCONNECT, which
  returns).
\<close>

definition processPacket_switch ::
  "Config \<Rightarrow> network \<Rightarrow> clients \<Rightarrow> ClientSession \<Rightarrow> byte \<Rightarrow> nat \<Rightarrow> byte list
    \<Rightarrow> ClientSession \<times> event list \<times> bool" where
  "processPacket_switch cfg net clients client header offset packet =
     (let type = drop_bit 4 header in
      if type = 1 then
        (case case_CONNECT cfg client offset packet of (client', out) \<Rightarrow> (client', out, True))
      else if type = 3 then
        (case case_PUBLISH cfg net clients client header offset packet of
           (client', out) \<Rightarrow> (client', out, True))
      else if type = 8 then
        (case case_SUBSCRIBE cfg client offset packet of (client', out) \<Rightarrow> (client', out, True))
      else if type = 12 then
        (case case_PINGREQ cfg client of (client', out) \<Rightarrow> (client', out, True))
      else if type = 14 then
        (case case_DISCONNECT cfg client of (client', out) \<Rightarrow> (client', out, False))
      else (client, log (LogWarnUnhandled type) (quiet cfg), True))"

text \<open>
  One iteration of \<open>while (client.inbox.size() >= 2)\<close>, for the session stored under
  \<open>key\<close>: the table after it, its effects, and whether the loop goes round again
  (\<open>False\<close> for each \<open>return\<close> and for the failed loop test). The extracted packet is
  erased from the inbox before the \<open>switch\<close>, so the table the PUBLISH case broadcasts
  over already holds the shortened inbox. \<open>processPacket\<close> is only ever called on an
  element of the table; for a key that is not in it the model does nothing.
\<close>

definition processPacket_body ::
  "Config \<Rightarrow> network \<Rightarrow> int \<Rightarrow> clients \<Rightarrow> clients \<times> event list \<times> bool" where
  "processPacket_body cfg net key clients =
     (case map_of clients key of
        None \<Rightarrow> (clients, [], False)
      | Some client \<Rightarrow>
          if length (inbox client) \<ge> 2 then
            (let header = inbox client ! 0 in
             case decodeRemainingLength (inbox client) 1 of
               (ok, offset, remainingLength) \<Rightarrow>
                 if \<not> ok then (clients, [], False)
                 else
                   let totalPacketLength = unat ((of_nat offset :: 64 word) + remainingLength) in
                   if length (inbox client) < totalPacketLength then (clients, [], False)
                   else
                     let packet = take totalPacketLength (inbox client);
                         client1 = client\<lparr>inbox := drop totalPacketLength (inbox client)\<rparr>;
                         clients1 = AList.update key client1 clients;
                         raw = (if logPackets cfg
                                then [LogRaw (drop_bit 4 header AND 0x0F) packet] else [])
                     in case processPacket_switch cfg net clients1 client1 header offset packet of
                          (client2, out, again) \<Rightarrow>
                            (AList.update key client2 clients1, raw @ out, again))
          else (clients, [], False))"

text \<open>
  The loop itself: the effects of an iteration, then those of the iterations after it.
  Nothing bounds the number of iterations (a frame whose computed \<open>totalPacketLength\<close>
  is 0 is extracted again and again), so the function is partial: \<open>None\<close> is a call
  that never returns.
\<close>

partial_function (option) processPacket ::
  "Config \<Rightarrow> network \<Rightarrow> int \<Rightarrow> clients \<Rightarrow> (clients \<times> event list) option" where
  "processPacket cfg net key clients =
     (case processPacket_body cfg net key clients of
        (clients', out, again) \<Rightarrow>
          if again
          then Option.bind (processPacket cfg net key clients')
                 (\<lambda>(clients'', out'). Some (clients'', out @ out'))
          else Some (clients', out))"

declare processPacket.simps [code]

subsection \<open>Command line\<close>

text \<open>
  \<open>parseArgs\<close> either returns a \<open>Config\<close> or leaves the program: through
  \<open>std::exit(1)\<close> after the usage line, or through an exception of \<open>std::stoi\<close>.
  \<open>std::stoi\<close> belongs to the C++ library and is a parameter here.
\<close>

datatype exit = UsageExit | StoiInvalidArgument | StoiOutOfRange

fun parseArgs_loop :: "(string \<Rightarrow> exit + int) \<Rightarrow> string list \<Rightarrow> Config \<Rightarrow> exit + Config" where
  "parseArgs_loop stoi [] cfg = Inr cfg"
| "parseArgs_loop stoi (arg # rest) cfg =
     (if arg = ''--port'' \<and> rest \<noteq> [] then
        (case stoi (hd rest) of Inl e \<Rightarrow> Inl e
         | Inr v \<Rightarrow> parseArgs_loop stoi (tl rest) (cfg\<lparr>port := v\<rparr>))
      else if arg = ''--max'' \<and> rest \<noteq> [] then
        (case stoi (hd rest) of Inl e \<Rightarrow> Inl e
         | Inr v \<Rightarrow> parseArgs_loop stoi (tl rest) (cfg\<lparr>maxClients := v\<rparr>))
      else if arg = ''--quiet'' then parseArgs_loop stoi rest (cfg\<lparr>quiet := True\<rparr>)
      else if arg = ''--raw'' then parseArgs_loop stoi rest (cfg\<lparr>logPackets := True\<rparr>)
      else if arg = ''--trace-sub'' then
        parseArgs_loop stoi rest (cfg\<lparr>traceSubscriptions := True\<rparr>)
      else if arg = ''--no-trace-msg'' then
        parseArgs_loop stoi rest (cfg\<lparr>traceMessages := False\<rparr>)
      else if arg = ''--delay'' \<and> rest \<noteq> [] then
        (case stoi (hd rest) of Inl e \<Rightarrow> Inl e
         | Inr v \<Rightarrow> parseArgs_loop stoi (tl rest) (cfg\<lparr>artificialDelayMs := v\<rparr>))
      else Inl UsageExit)"

text \<open>\<open>argv[0]\<close> is the program's name; the loop starts at \<open>argv[1]\<close>.\<close>

definition parseArgs :: "(string \<Rightarrow> exit + int) \<Rightarrow> string list \<Rightarrow> exit + Config" where
  "parseArgs stoi argv = parseArgs_loop stoi (tl argv) defaultConfig"

subsection \<open>One iteration of the server loop of \<open>main\<close>\<close>

text \<open>
  What \<open>select\<close>, \<open>accept\<close> and \<open>recv\<close> answer in one iteration: \<open>accepted\<close> is
  \<open>None\<close> when the listener is not set in \<open>readfds\<close>, and otherwise the value
  \<open>accept\<close> returned; \<open>readable fd\<close> is \<open>None\<close> when \<open>fd\<close> is not set in \<open>readfds\<close> after \<open>select\<close>, and
  otherwise the bytes \<open>recv\<close> put in the buffer (at most 2048, the size of the
  buffer), the empty list standing for \<open>received <= 0\<close>.
\<close>

record TickInput =
  accepted :: "int option"
  readable :: "int \<Rightarrow> byte list option"

text \<open>\<open>clients[newFd] = session\<close>\<close>

fun mapAssign :: "int \<Rightarrow> ClientSession \<Rightarrow> clients \<Rightarrow> clients" where
  "mapAssign k v [] = [(k, v)]"
| "mapAssign k v ((k', v') # rest) =
     (if k < k' then (k, v) # (k', v') # rest
      else if k = k' then (k, v) # rest
      else (k', v') # mapAssign k v rest)"

definition acceptPhase :: "Config \<Rightarrow> int option \<Rightarrow> clients \<Rightarrow> clients \<times> event list" where
  "acceptPhase cfg newFd clients =
     (case newFd of
        None \<Rightarrow> (clients, [])
      | Some nf \<Rightarrow>
          if nf \<ge> 0 then
            (if int (length clients) \<ge> maxClients cfg
             then (clients, log LogDrop (quiet cfg) @ [Close nf])
             else (mapAssign nf (defaultSession\<lparr>fd := nf\<rparr>) clients,
                   log (LogAccept nf) (quiet cfg)))
          else (clients, []))"

text \<open>
  The \<open>for (auto &pair : clients)\<close> loop that reads the sockets. The keys of the table
  do not change while it runs, so it walks the list of keys taken at its start; the state
  is the table, the effects so far and \<open>toRemove\<close>.
\<close>

fun readLoop ::
  "Config \<Rightarrow> network \<Rightarrow> (int \<Rightarrow> byte list option) \<Rightarrow> int list
    \<Rightarrow> clients \<times> event list \<times> int list \<Rightarrow> (clients \<times> event list \<times> int list) option" where
  "readLoop cfg net rd [] st = Some st"
| "readLoop cfg net rd (k # ks) (clients, evs, toRemove) =
     (case rd k of
        None \<Rightarrow> readLoop cfg net rd ks (clients, evs, toRemove)
      | Some received \<Rightarrow>
          if received = [] then
            readLoop cfg net rd ks
              (clients, evs @ log (LogCloseFd k) (quiet cfg) @ [Close k], toRemove @ [k])
          else
            (case processPacket cfg net k
                    (AList.map_entry k (\<lambda>s. s\<lparr>inbox := inbox s @ received\<rparr>) clients) of
               None \<Rightarrow> None
             | Some (clients', out) \<Rightarrow>
                 readLoop cfg net rd ks
                   (clients', evs @ out,
                    if (case map_of clients' k of None \<Rightarrow> False | Some s \<Rightarrow> fd s < 0)
                    then toRemove @ [k] else toRemove)))"

text \<open>
  The iteration: \<open>readfds\<close> is filled from the non-negative keys of the table as it
  is before \<open>accept\<close>, so a session admitted in this iteration is not read in it; after
  the reads, the sessions in \<open>toRemove\<close> are erased.
\<close>

definition tick :: "Config \<Rightarrow> network \<Rightarrow> TickInput \<Rightarrow> clients \<Rightarrow> (clients \<times> event list) option"
  where
  "tick cfg net inp clients =
     (let rd = (\<lambda>k. if k \<in> set (map fst clients) \<and> 0 \<le> k then readable inp k else None) in
      case acceptPhase cfg (accepted inp) clients of
        (clients1, evs1) \<Rightarrow>
          (case readLoop cfg net rd (map fst clients1) (clients1, evs1, []) of
             None \<Rightarrow> None
           | Some (clients2, evs2, toRemove) \<Rightarrow>
               Some (fold AList.delete toRemove clients2, evs2)))"

text \<open>Several iterations in a row, one input each; the effects are concatenated.\<close>

fun ticks :: "Config \<Rightarrow> network \<Rightarrow> TickInput list \<Rightarrow> clients \<Rightarrow> (clients \<times> event list) option"
  where
  "ticks cfg net [] clients = Some (clients, [])"
| "ticks cfg net (inp # inps) clients =
     (case tick cfg net inp clients of
        None \<Rightarrow> None
      | Some (clients', evs) \<Rightarrow>
          (case ticks cfg net inps clients' of
             None \<Rightarrow> None
           | Some (clients'', evs') \<Rightarrow> Some (clients'', evs @ evs')))"

text \<open>The input of an iteration in which only \<open>key\<close> is readable and \<open>recv\<close> yields \<open>chunk\<close>.\<close>

definition recvOn :: "int \<Rightarrow> byte list \<Rightarrow> TickInput" where
  "recvOn key chunk =
     \<lparr>accepted = None, readable = (\<lambda>k. if k = key then Some chunk else None)\<rparr>"

subsection \<open>Notions used to state the properties\<close>

text \<open>The packets handed to \<open>sendAll\<close> for descriptor \<open>f\<close>, in order.\<close>

fun sentTo :: "int \<Rightarrow> event list \<Rightarrow> byte list list" where
  "sentTo f [] = []"
| "sentTo f (Send g d # evs) = (if g = f then d # sentTo f evs else sentTo f evs)"
| "sentTo f (e # evs) = sentTo f evs"

text \<open>
  A byte sequence is one complete frame for the broker when its Remaining Length decodes
  from offset 1 and the total length \<open>processPacket\<close> computes from it is the length of
  the sequence.
\<close>

definition completeFrame :: "byte list \<Rightarrow> bool" where
  "completeFrame p =
     (case decodeRemainingLength p 1 of
        (ok, offset, remainingLength) \<Rightarrow>
          ok \<and> unat ((of_nat offset :: 64 word) + remainingLength) = length p)"

text \<open>
  The size of the fixed header of a frame, and the frames of type CONNECT, PUBLISH or
  SUBSCRIBE whose body is too short for the variable header its type requires: a CONNECT
  without room for the protocol name, the level, flags and keepalive bytes and the length
  of the client id; a PUBLISH without room for its topic or, with QoS above 0, for its
  packet identifier; a SUBSCRIBE without room for its packet identifier.
\<close>

definition headerSize :: "byte list \<Rightarrow> nat" where
  "headerSize p = fst (snd (decodeRemainingLength p 1))"

definition truncatedBody :: "byte list \<Rightarrow> bool" where
  "truncatedBody p =
     (let type = drop_bit 4 (p ! 0); pos = headerSize p in
      if type = 1 then
        pos + 2 > length p \<or> pos + 2 + unat (be16 p pos) + 4 + 2 > length p
      else if type = 3 then
        pos + 2 > length p \<or> pos + 2 + unat (be16 p pos) > length p
        \<or> (drop_bit 1 (p ! 0) AND 0x03 > 0 \<and> pos + 2 + unat (be16 p pos) + 2 > length p)
      else if type = 8 then pos + 2 > length p
      else False)"

text \<open>
  The test on which \<open>processPacket\<close> returns to wait for more bytes: the Remaining
  Length does not decode, or the inbox is shorter than the total length computed from it.
\<close>

definition awaitsData :: "byte list \<Rightarrow> bool" where
  "awaitsData buf =
     (case decodeRemainingLength buf 1 of
        (ok, offset, remainingLength) \<Rightarrow>
          \<not> ok \<or> length buf < unat ((of_nat offset :: 64 word) + remainingLength))"

section \<open>Evaluation rules\<close>

lemmas codec_eval = decodeRemainingLength_def decodeRemainingLength_loop.simps
  encodeRemainingLength_def encodeRemainingLength_loop.simps

lemmas handler_eval = processPacket.simps processPacket_body_def processPacket_switch_def
  case_CONNECT_def case_PUBLISH_def case_SUBSCRIBE_def case_SUBSCRIBE_loop.simps
  case_PINGREQ_def case_DISCONNECT_def log_def be16_def sendSuback_def suback_def
  sendPuback_def puback_def sendConnack_def connack_def sendPingResp_def pingResp_def
  buildPublish_def Let_def

lemmas tick_eval = tick_def recvOn_def acceptPhase_def defaultConfig_def defaultSession_def

section \<open>Lemmas on the Remaining Length codec\<close>

lemma encode_loop_grows: "length out < length (encodeRemainingLength_loop n out)"
proof (induction n out rule: encodeRemainingLength_loop.induct)
  case (1 len out)
  show ?case
  proof (cases "0 < len div 128")
    case True
    with 1 [OF refl refl refl refl True]
    show ?thesis
      by (subst encodeRemainingLength_loop.simps) (simp add: Let_def)
  next
    case False
    then show ?thesis
      by (subst encodeRemainingLength_loop.simps) (simp add: Let_def)
  qed
qed

lemma encode_loop_length:
  "128 ^ k \<le> unat n \<Longrightarrow> length out + k < length (encodeRemainingLength_loop n out)"
proof (induction k arbitrary: n out)
  case 0
  show ?case using encode_loop_grows [of out n] by simp
next
  case (Suc k)
  have d: "unat (n div 128) = unat n div 128"
    by (simp add: unat_div)
  from Suc.prems have "128 ^ k * 128 \<le> unat n" by (simp add: mult.commute)
  then have k: "128 ^ k \<le> unat n div 128"
    by (simp add: less_eq_div_iff_mult_less_eq)
  then have "0 < unat n div 128"
    by (metis gr0I not_one_le_zero one_le_numeral one_le_power order.trans le_zero_eq zero_neq_numeral power_not_zero)
  then have pos: "0 < n div 128"
    using d by (simp add: word_less_nat_alt)
  have "length (out @ [ucast (n mod 128) OR 128]) + k
          < length (encodeRemainingLength_loop (n div 128) (out @ [ucast (n mod 128) OR 128]))"
    by (rule Suc.IH) (simp add: d k)
  then show ?case
    using pos by (subst encodeRemainingLength_loop.simps) (simp add: Let_def)
qed

lemma and127: "unat ((e :: byte) AND 127) \<le> 127"
  by (metis (no_types, lifting) le_unat_uoi linorder_linear of_nat_numeral
    word_and_le1 word_le_nat_alt)

lemma ucast_byte: "unat (ucast (x :: byte) :: 32 word) = unat x"
proof -
  have "unat x < 2 ^ 8" using unsigned_less [of x] by simp
  then have "unat x < 2 ^ 32" by simp
  then show ?thesis
    by (simp add: unsigned_ucast_eq take_bit_nat_eq_self)
qed

lemma scast_small: "unat (w :: 32 word) < 2 ^ 31 \<Longrightarrow> unat (scast w :: 64 word) = unat w"
proof -
  assume a: "unat w < 2 ^ 31"
  then have "int (unat w) < int (2 ^ 31)"
    by (simp only: of_nat_less_iff)
  then have u: "uint w < 2 ^ 31"
    by simp
  have "signed_take_bit 31 (uint w) = uint w"
  proof (rule signed_take_bit_int_eq_self)
    have "- (2 ^ 31) \<le> (0 :: int)" by simp
    also have "0 \<le> uint w" by simp
    finally show "- (2 ^ 31) \<le> uint w" .
    show "uint w < 2 ^ 31" by (rule u)
  qed
  then have su: "sint w = uint w"
    by (simp add: sint_uint)
  have "(scast w :: 64 word) = word_of_int (sint w)"
    by (rule scast_eq)
  also have "\<dots> = word_of_int (uint w)"
    by (simp only: su)
  also have "\<dots> = ucast w"
    by (rule ucast_eq [symmetric])
  finally have "(scast w :: 64 word) = ucast w" .
  moreover have "unat (ucast w :: 64 word) = unat w"
  proof -
    have "unat w < 2 ^ 64" using a by simp
    then show ?thesis
      by (simp add: unsigned_ucast_eq take_bit_nat_eq_self)
  qed
  ultimately show ?thesis by simp
qed

lemma term_small:
  assumes "c \<le> 3"
  shows "unat (scast ((ucast ((e :: byte) AND 127) :: 32 word) * 128 ^ c) :: 64 word)
           = unat (e AND 127) * 128 ^ c"
proof -
  let ?a = "ucast (e AND 127) :: 32 word"
  have a: "unat ?a = unat (e AND 127)" by (rule ucast_byte)
  have p: "(128 :: nat) ^ c \<le> 128 ^ 3" using assms by (intro power_increasing) simp_all
  have m: "unat ((128 :: 32 word) ^ c) = 128 ^ c"
  proof -
    from assms consider "c = 0" | "c = 1" | "c = 2" | "c = 3" by linarith
    then show ?thesis by cases simp_all
  qed
  have "unat (e AND 127) * 128 ^ c \<le> 127 * 128 ^ 3"
    using and127 [of e] p by (intro mult_mono) simp_all
  then have b: "unat (e AND 127) * 128 ^ c < 2 ^ 31" by simp
  then have "unat ?a * unat ((128 :: 32 word) ^ c) < 2 ^ LENGTH(32)"
    by (simp add: a m)
  then have "unat (?a * 128 ^ c) = unat ?a * unat ((128 :: 32 word) ^ c)"
    by (simp only: unat_mult_lem)
  then have e: "unat (?a * 128 ^ c) = unat (e AND 127) * 128 ^ c"
    by (simp add: a m)
  with b have "unat (?a * 128 ^ c) < 2 ^ 31" by simp
  from scast_small [OF this] e show ?thesis by simp
qed

lemma decode_loop_append:
  "decodeRemainingLength_loop q off m len c = (True, off', len')
   \<Longrightarrow> decodeRemainingLength_loop (q @ r) off m len c = (True, off', len')"
proof (induction q off m len c rule: decodeRemainingLength_loop.induct)
  case (1 buf offset multiplier len consumed)
  from "1.prems" have inr: "offset + consumed < length buf"
    by (subst (asm) decodeRemainingLength_loop.simps) (simp split: if_splits)
  let ?e = "buf ! (offset + consumed)"
  let ?len = "len + scast ((ucast (?e AND 127) :: 32 word) * multiplier)"
  have nth: "(buf @ r) ! (offset + consumed) = ?e"
    using inr by (simp add: nth_append)
  show ?case
  proof (cases "?e AND 128 = 0")
    case True
    with "1.prems" inr nth show ?thesis
      by (subst decodeRemainingLength_loop.simps, subst (asm) decodeRemainingLength_loop.simps)
         (simp add: Let_def)
  next
    case False
    with "1.prems" inr have c4: "\<not> 4 < consumed + 1"
      by (subst (asm) decodeRemainingLength_loop.simps) (simp add: Let_def split: if_splits)
    from "1.prems" inr False c4
    have rec: "decodeRemainingLength_loop buf offset (multiplier * 128) ?len (consumed + 1)
                 = (True, off', len')"
      by (subst (asm) decodeRemainingLength_loop.simps) (simp add: Let_def)
    have "decodeRemainingLength_loop (buf @ r) offset (multiplier * 128) ?len (consumed + 1)
            = (True, off', len')"
      using "1.IH" [OF inr refl refl refl refl False c4 rec] .
    with inr nth False c4 show ?thesis
      by (subst decodeRemainingLength_loop.simps) (simp add: Let_def)
  qed
qed

lemma decode_loop_range:
  "decodeRemainingLength_loop q off m len c = (True, off', len')
   \<Longrightarrow> off + c < off' \<and> off' \<le> length q"
proof (induction q off m len c rule: decodeRemainingLength_loop.induct)
  case (1 buf offset multiplier len consumed)
  from "1.prems" have inr: "offset + consumed < length buf"
    by (subst (asm) decodeRemainingLength_loop.simps) (simp split: if_splits)
  let ?e = "buf ! (offset + consumed)"
  let ?len = "len + scast ((ucast (?e AND 127) :: 32 word) * multiplier)"
  show ?case
  proof (cases "?e AND 128 = 0")
    case True
    with "1.prems" inr show ?thesis
      by (subst (asm) decodeRemainingLength_loop.simps) (auto simp add: Let_def)
  next
    case False
    with "1.prems" inr have c4: "\<not> 4 < consumed + 1"
      by (subst (asm) decodeRemainingLength_loop.simps) (simp add: Let_def split: if_splits)
    from "1.prems" inr False c4
    have rec: "decodeRemainingLength_loop buf offset (multiplier * 128) ?len (consumed + 1)
                 = (True, off', len')"
      by (subst (asm) decodeRemainingLength_loop.simps) (simp add: Let_def)
    from "1.IH" [OF inr refl refl refl refl False c4 rec] show ?thesis by simp
  qed
qed


lemma acc_small:
  assumes c: "c \<le> 3" and l: "unat (len :: 64 word) < 128 ^ c"
  shows "unat (len + scast ((ucast ((e :: byte) AND 127) :: 32 word) * 128 ^ c)) < 128 ^ Suc c"
proof -
  let ?t = "scast ((ucast (e AND 127) :: 32 word) * 128 ^ c) :: 64 word"
  have t: "unat ?t = unat (e AND 127) * 128 ^ c" by (rule term_small [OF c])
  define K :: nat where "K = 128 ^ c"
  define X :: nat where "X = unat (e AND 127) * K"
  have "X \<le> 127 * K"
    unfolding X_def using and127 [of e] by (rule mult_le_mono1)
  moreover have "unat len < K" using l by (simp add: K_def)
  ultimately have "unat len + X < 128 * K" by linarith
  then have s: "unat len + unat ?t < 128 ^ Suc c"
    by (simp add: t X_def K_def)
  have "(128 :: nat) ^ Suc c \<le> 128 ^ 4" using c by (intro power_increasing) simp_all
  with s have "unat len + unat ?t < 2 ^ LENGTH(64)" by simp
  then have "unat (len + ?t) = unat len + unat ?t" by (simp only: unat_add_lem)
  with s show ?thesis by simp
qed

lemma decode_loop_bound:
  "decodeRemainingLength_loop buf off m len c = (True, off', len')
   \<Longrightarrow> m = 128 ^ c \<Longrightarrow> unat len < 128 ^ c \<Longrightarrow> off' \<le> off + 4
   \<Longrightarrow> unat len' < 128 ^ 4"
proof (induction buf off m len c rule: decodeRemainingLength_loop.induct)
  case (1 buf offset multiplier len consumed)
  note run = "1.prems"(1)
  from run have inr: "offset + consumed < length buf"
    by (subst (asm) decodeRemainingLength_loop.simps) (simp split: if_splits)
  from decode_loop_range [OF run] "1.prems"(4) have c3: "consumed \<le> 3" by simp
  let ?e = "buf ! (offset + consumed)"
  let ?len = "len + scast ((ucast (?e AND 127) :: 32 word) * multiplier)"
  have acc: "unat ?len < 128 ^ Suc consumed"
    using acc_small [OF c3 "1.prems"(3), of ?e] "1.prems"(2) by simp
  have top: "(128 :: nat) ^ Suc consumed \<le> 128 ^ 4"
    using c3 by (intro power_increasing) simp_all
  show ?case
  proof (cases "?e AND 128 = 0")
    case True
    with run inr have "len' = ?len"
      by (subst (asm) decodeRemainingLength_loop.simps) (simp add: Let_def)
    with acc top show ?thesis by simp
  next
    case False
    with run inr have c4: "\<not> 4 < consumed + 1"
      by (subst (asm) decodeRemainingLength_loop.simps) (simp add: Let_def split: if_splits)
    from run inr False c4
    have rec: "decodeRemainingLength_loop buf offset (multiplier * 128) ?len (consumed + 1)
                 = (True, off', len')"
      by (subst (asm) decodeRemainingLength_loop.simps) (simp add: Let_def)
    have m: "multiplier * 128 = 128 ^ (consumed + 1)"
      using "1.prems"(2) by simp
    have l: "unat ?len < 128 ^ (consumed + 1)"
      using acc by simp
    show ?thesis
      using "1.IH" [OF inr refl refl refl refl False c4 rec m l "1.prems"(4)] .
  qed
qed

lemma decode_bound:
  "decodeRemainingLength buf off = (True, off', len) \<Longrightarrow> off' \<le> off + 4 \<Longrightarrow> len \<le> 268435455"
proof -
  assume d: "decodeRemainingLength buf off = (True, off', len)" and o: "off' \<le> off + 4"
  from d have "decodeRemainingLength_loop buf off 1 0 0 = (True, off', len)"
    by (simp add: decodeRemainingLength_def)
  from decode_loop_bound [OF this _ _ o] have "unat len < 128 ^ 4" by simp
  then show ?thesis by (simp add: word_le_nat_alt)
qed

section \<open>Lemmas on the handler and the server loop\<close>

lemma map_entry_update:
  "map_of al k = Some v \<Longrightarrow> AList.map_entry k f al = AList.update k (f v) al"
  by (induction al) (auto split: if_splits)

lemma decode_append:
  "decodeRemainingLength q off = (True, off', len)
   \<Longrightarrow> decodeRemainingLength (q @ r) off = (True, off', len)"
  unfolding decodeRemainingLength_def by (rule decode_loop_append)

lemma decode_range:
  "decodeRemainingLength q off = (True, off', len) \<Longrightarrow> off < off' \<and> off' \<le> length q"
  unfolding decodeRemainingLength_def using decode_loop_range [of q off 1 0 0 off' len] by simp

lemma completeFrame_decode:
  assumes "completeFrame p"
  obtains off len where "decodeRemainingLength p 1 = (True, off, len)"
    and "unat ((of_nat off :: 64 word) + len) = length p" and "2 \<le> length p"
proof -
  obtain ok off len where d: "decodeRemainingLength p 1 = (ok, off, len)"
    by (cases "decodeRemainingLength p 1") auto
  with assms have ok: "ok" and t: "unat ((of_nat off :: 64 word) + len) = length p"
    by (simp_all add: completeFrame_def)
  from d ok decode_range [of p 1 off len] have "2 \<le> length p" by simp
  with d ok t show thesis by (auto intro: that)
qed

text \<open>An inbox that begins with a complete frame: the iteration extracts exactly it.\<close>

lemma processPacket_body_frame:
  assumes c: "map_of clients key = Some client"
    and i: "inbox client = frame @ rest"
    and d: "decodeRemainingLength frame 1 = (True, off, len)"
    and t: "unat ((of_nat off :: 64 word) + len) = length frame"
  shows "processPacket_body cfg net key clients =
     (case processPacket_switch cfg net (AList.update key (client\<lparr>inbox := rest\<rparr>) clients)
             (client\<lparr>inbox := rest\<rparr>) (frame ! 0) off frame of
        (client2, out, again) \<Rightarrow>
          (AList.update key client2 clients,
           (if logPackets cfg then [LogRaw (drop_bit 4 (frame ! 0) AND 0x0F) frame] else []) @ out,
           again))"
proof -
  from decode_range [OF d] have l: "2 \<le> length frame" by simp
  then have h: "(frame @ rest) ! 0 = frame ! 0" by (cases frame) auto
  from decode_append [OF d] have d': "decodeRemainingLength (frame @ rest) (Suc 0) = (True, off, len)"
    by simp
  from l have ne: "frame \<noteq> []" by auto
  show ?thesis
    using l ne by (simp add: processPacket_body_def c i d' t h Let_def)
qed

lemma processPacket_body_incomplete:
  assumes c: "map_of clients key = Some client"
    and i: "inbox client = q"
    and p: "completeFrame (q @ r)" and r: "r \<noteq> []"
  shows "processPacket_body cfg net key clients = (clients, [], False)"
proof -
  obtain ok off len where d: "decodeRemainingLength q (Suc 0) = (ok, off, len)"
    by (cases "decodeRemainingLength q (Suc 0)") auto
  show ?thesis
  proof (cases ok)
    case False
    with d show ?thesis by (simp add: processPacket_body_def c i Let_def)
  next
    case True
    with d decode_append [of q 1 off len r]
    have "decodeRemainingLength (q @ r) 1 = (True, off, len)" by simp
    with p have "unat ((of_nat off :: 64 word) + len) = length (q @ r)"
      by (simp add: completeFrame_def)
    with r have "length q < unat ((of_nat off :: 64 word) + len)" by simp
    with d True show ?thesis by (simp add: processPacket_body_def c i Let_def)
  qed
qed


lemma processPacket_stop:
  "processPacket_body cfg net key clients = (clients', out, False)
   \<Longrightarrow> processPacket cfg net key clients = Some (clients', out)"
  by (subst processPacket.simps) simp

lemma processPacket_again:
  "processPacket_body cfg net key clients = (clients', out, True)
   \<Longrightarrow> processPacket cfg net key clients =
       Option.bind (processPacket cfg net key clients')
         (\<lambda>(clients'', out'). Some (clients'', out @ out'))"
  by (subst processPacket.simps) simp

lemma processPacket_short:
  "map_of clients key = Some client \<Longrightarrow> length (inbox client) < 2
   \<Longrightarrow> processPacket cfg net key clients = Some (clients, [])"
  by (rule processPacket_stop) (simp add: processPacket_body_def)

lemma processPacket_incomplete:
  "map_of clients key = Some client \<Longrightarrow> inbox client = q \<Longrightarrow> completeFrame (q @ r)
   \<Longrightarrow> r \<noteq> [] \<Longrightarrow> processPacket cfg net key clients = Some (clients, [])"
  by (rule processPacket_stop) (rule processPacket_body_incomplete)

text \<open>
  The loop does not always end. In the inbox \<open>C0 FA FF FF FF 0F\<close> the five length bytes
  decode to \<open>2^64 - 6\<close>, the total length is 0, and each iteration extracts an empty
  PINGREQ, answers it and leaves the inbox as it was.
\<close>

lemma processPacket_zero_length_frame:
  assumes c: "map_of clients key = Some client"
    and i: "inbox client = [0xC0, 0xFA, 0xFF, 0xFF, 0xFF, 0x0F]"
  shows "processPacket cfg net key clients = None"
proof (rule ccontr)
  assume "processPacket cfg net key clients \<noteq> None"
  then obtain y where run: "processPacket cfg net key clients = Some y" by auto
  let ?bad = "[0xC0, 0xFA, 0xFF, 0xFF, 0xFF, 0x0F] :: byte list"
  let ?Q = "\<lambda>(cfg :: Config) (net :: network) key clients (y :: clients \<times> event list).
      \<forall>client. map_of clients key = Some client \<longrightarrow> inbox client \<noteq> ?bad"
  have "?Q cfg net key clients y"
  proof (rule processPacket.raw_induct [where P = ?Q, OF _ run])
    fix f cfg net key clients y
    assume IH: "\<And>cfg net key clients y. f cfg net key clients = Some y \<Longrightarrow> ?Q cfg net key clients y"
      and eq: "(case processPacket_body cfg net key clients of
                  (clients', out, again) \<Rightarrow>
                    if again
                    then Option.bind (f cfg net key clients')
                           (\<lambda>(clients'', out'). Some (clients'', out @ out'))
                    else Some (clients', out)) = Some y"
    show "?Q cfg net key clients y"
    proof (intro allI impI notI)
      fix client
      assume m: "map_of clients key = Some client" and b: "inbox client = ?bad"
      have same: "client\<lparr>inbox := ?bad\<rparr> = client" using b by simp
      have body: "processPacket_body cfg net key clients
                    = (clients, (if logPackets cfg then [LogRaw 12 []] else [])
                                @ (if \<not> quiet cfg then [LogPing (clientId client)] else [])
                                @ [Send (fd client) [0xD0, 0x00]], True)"
        by (simp add: processPacket_body_def m b codec_eval processPacket_switch_def
              case_PINGREQ_def sendPingResp_def pingResp_def same update_triv [OF m] Let_def)
      with eq obtain y' where "f cfg net key clients = Some y'"
        by (auto simp: bind_eq_Some_conv)
      from IH [OF this] m b show False by blast
    qed
  qed
  with c i show False by blast
qed

lemma readLoop_idle:
  "\<forall>k \<in> set ks. rd k = None
   \<Longrightarrow> readLoop cfg net rd ks (clients, evs, toRemove) = Some (clients, evs, toRemove)"
  by (induction ks) auto

lemma readLoop_single:
  assumes "distinct ks" and "key \<in> set ks" and "\<forall>k \<in> set ks. k \<noteq> key \<longrightarrow> rd k = None"
    and "rd key = Some chunk" and "chunk \<noteq> []"
  shows "readLoop cfg net rd ks (clients, evs, toRemove) =
     (case processPacket cfg net key
             (AList.map_entry key (\<lambda>s. s\<lparr>inbox := inbox s @ chunk\<rparr>) clients) of
        None \<Rightarrow> None
      | Some (clients', out) \<Rightarrow>
          Some (clients', evs @ out,
                if (case map_of clients' key of None \<Rightarrow> False | Some s \<Rightarrow> fd s < 0)
                then toRemove @ [key] else toRemove))"
  using assms
proof (induction ks)
  case Nil
  then show ?case by simp
next
  case (Cons k ks)
  show ?case
  proof (cases "k = key")
    case True
    with Cons.prems have "\<forall>k \<in> set ks. rd k = None" by auto
    then have idle: "\<And>c e t. readLoop cfg net rd ks (c, e, t) = Some (c, e, t)"
      by (rule readLoop_idle)
    show ?thesis
      using True Cons.prems(4,5) by (simp add: idle split: option.splits prod.splits)
  next
    case False
    with Cons.prems have "rd k = None" and "distinct ks" and "key \<in> set ks"
      and "\<forall>k \<in> set ks. k \<noteq> key \<longrightarrow> rd k = None" by auto
    with Cons.IH Cons.prems(4,5) show ?thesis by simp
  qed
qed

lemma tick_recvOn:
  assumes d: "distinct (map fst clients)" and c: "map_of clients key = Some client"
    and k0: "0 \<le> key" and n: "chunk \<noteq> []"
  shows "tick cfg net (recvOn key chunk) clients =
     (case processPacket cfg net key
             (AList.update key (client\<lparr>inbox := inbox client @ chunk\<rparr>) clients) of
        None \<Rightarrow> None
      | Some (clients', out) \<Rightarrow>
          Some (if (case map_of clients' key of None \<Rightarrow> False | Some s \<Rightarrow> fd s < 0)
                then AList.delete key clients' else clients', out))"
proof -
  let ?rd = "\<lambda>k. if k \<in> set (map fst clients) \<and> 0 \<le> k
                 then readable (recvOn key chunk) k else None"
  from c have k: "key \<in> set (map fst clients)"
    by (metis map_of_eq_None_iff option.distinct(1) set_map)
  have 1: "\<forall>k \<in> set (map fst clients). k \<noteq> key \<longrightarrow> ?rd k = None"
    by (simp add: recvOn_def)
  have 2: "?rd key = Some chunk"
    using k k0 by (simp add: recvOn_def)
  have acc: "acceptPhase cfg (accepted (recvOn key chunk)) clients = (clients, [])"
    by (simp add: acceptPhase_def recvOn_def)
  note rl = readLoop_single [OF d k 1 2 n, of cfg net clients "[]" "[]"]
  have "tick cfg net (recvOn key chunk) clients =
          (case readLoop cfg net ?rd (map fst clients) (clients, [], []) of
             None \<Rightarrow> None
           | Some (clients2, evs2, toRemove) \<Rightarrow> Some (fold AList.delete toRemove clients2, evs2))"
    by (simp only: tick_def Let_def acc prod.case)
  also have "\<dots> =
     (case processPacket cfg net key
             (AList.update key (client\<lparr>inbox := inbox client @ chunk\<rparr>) clients) of
        None \<Rightarrow> None
      | Some (clients', out) \<Rightarrow>
          Some (if (case map_of clients' key of None \<Rightarrow> False | Some s \<Rightarrow> fd s < 0)
                then AList.delete key clients' else clients', out))"
    unfolding rl map_entry_update [OF c]
    by (cases "processPacket cfg net key
                 (AList.update key (client\<lparr>inbox := inbox client @ chunk\<rparr>) clients)") auto
  finally show ?thesis .
qed

lemma case_SUBSCRIBE_loop_fields:
  "case_SUBSCRIBE_loop cfg packet pos client evs = (client', evs')
   \<Longrightarrow> inbox client' = inbox client \<and> fd client' = fd client"
proof (induction cfg packet pos client evs rule: case_SUBSCRIBE_loop.induct)
  case (1 cfg packet pos client evs)
  show ?case
  proof (cases "pos + 2 \<le> length packet \<and> \<not> pos + 2 + unat (be16 packet pos) + 1 > length packet")
    case True
    let ?topic = "take (unat (be16 packet pos)) (drop (pos + 2) packet)"
    let ?c = "client\<lparr>subscriptions := insert ?topic (subscriptions client)\<rparr>"
    from True "1.prems" have
      "case_SUBSCRIBE_loop cfg packet (pos + 2 + unat (be16 packet pos) + 1) ?c
         (evs @ (if traceSubscriptions cfg then log (LogSubscribe (clientId ?c) ?topic) (quiet cfg)
                 else [])) = (client', evs')"
      by (subst (asm) case_SUBSCRIBE_loop.simps) (simp add: Let_def cong: if_cong)
    from "1.IH" [OF _ refl refl _ refl refl refl refl this] True
    show ?thesis by simp
  next
    case False
    with "1.prems" show ?thesis
      by (subst (asm) case_SUBSCRIBE_loop.simps) (auto simp: Let_def split: if_splits)
  qed
qed

lemma processPacket_switch_fields:
  "processPacket_switch cfg net clients client header offset packet = (client', out, again)
   \<Longrightarrow> inbox client' = inbox client \<and> (again \<longrightarrow> fd client' = fd client)
       \<and> (\<not> again \<longrightarrow> fd client' < 0)"
  by (auto simp: processPacket_switch_def case_CONNECT_def case_PUBLISH_def case_SUBSCRIBE_def
        case_PINGREQ_def case_DISCONNECT_def Let_def
        split: if_splits prod.splits dest: case_SUBSCRIBE_loop_fields)

section \<open>What the handler and a loop iteration preserve\<close>

lemma awaitsData_short: "length buf < 2 \<Longrightarrow> awaitsData buf"
  by (simp add: awaitsData_def decodeRemainingLength_def decodeRemainingLength_loop.simps)

lemma update_keys_present:
  "map_of al k = Some v \<Longrightarrow> map fst (AList.update k v' al) = map fst al"
  by (induction al) (auto split: if_splits)

lemma processPacket_body_frame_props:
  assumes "processPacket_body cfg net key clients = (clients', out, again)"
  shows "map fst clients' = map fst clients
         \<and> (\<forall>k. k \<noteq> key \<longrightarrow> map_of clients' k = map_of clients k)
         \<and> (\<not> again \<longrightarrow> (\<forall>s. map_of clients' key = Some s \<longrightarrow> fd s < 0 \<or> awaitsData (inbox s)))"
proof (cases "map_of clients key")
  case None
  with assms show ?thesis by (simp add: processPacket_body_def)
next
  case (Some client)
  obtain ok off len where d: "decodeRemainingLength (inbox client) (Suc 0) = (ok, off, len)"
    by (cases "decodeRemainingLength (inbox client) (Suc 0)") auto
  let ?total = "unat ((of_nat off :: 64 word) + len)"
  show ?thesis
  proof (cases "2 \<le> length (inbox client) \<and> ok \<and> \<not> length (inbox client) < ?total")
    case False
    with assms Some d have same: "clients' = clients" and na: "\<not> again"
      by (auto simp: processPacket_body_def Let_def split: if_splits)
    have "awaitsData (inbox client)"
    proof (cases "2 \<le> length (inbox client)")
      case True
      with False d show ?thesis by (auto simp: awaitsData_def)
    next
      case False
      then show ?thesis by (simp add: awaitsData_short)
    qed
    with same Some show ?thesis by simp
  next
    case True
    let ?c1 = "client\<lparr>inbox := drop ?total (inbox client)\<rparr>"
    obtain c2 o2 a2 where sw: "processPacket_switch cfg net (AList.update key ?c1 clients) ?c1
        (inbox client ! 0) off (take ?total (inbox client)) = (c2, o2, a2)"
      by (metis prod_cases3)
    from assms Some d True sw have r: "clients' = AList.update key c2 clients" "again = a2"
      by (auto simp: processPacket_body_def Let_def)
    from processPacket_switch_fields [OF sw] have f: "\<not> a2 \<longrightarrow> fd c2 < 0" by simp
    from r f Some show ?thesis
      by (simp add: update_keys_present update_conv')
  qed
qed

lemma processPacket_props:
  assumes run: "processPacket cfg net key clients = Some y"
  shows "map fst (fst y) = map fst clients
       \<and> (\<forall>k. k \<noteq> key \<longrightarrow> map_of (fst y) k = map_of clients k)
       \<and> (\<forall>s. map_of (fst y) key = Some s \<longrightarrow> fd s < 0 \<or> awaitsData (inbox s))"
proof -
  let ?Q = "\<lambda>(cfg :: Config) (net :: network) key clients (y :: clients \<times> event list).
      map fst (fst y) = map fst clients
      \<and> (\<forall>k. k \<noteq> key \<longrightarrow> map_of (fst y) k = map_of clients k)
      \<and> (\<forall>s. map_of (fst y) key = Some s \<longrightarrow> fd s < 0 \<or> awaitsData (inbox s))"
  have "?Q cfg net key clients y"
  proof (rule processPacket.raw_induct [where P = ?Q, OF _ run])
    fix f cfg net key clients y
    assume IH: "\<And>cfg net key clients y. f cfg net key clients = Some y \<Longrightarrow> ?Q cfg net key clients y"
      and eq: "(case processPacket_body cfg net key clients of
                  (clients', out, again) \<Rightarrow>
                    if again
                    then Option.bind (f cfg net key clients')
                           (\<lambda>(clients'', out'). Some (clients'', out @ out'))
                    else Some (clients', out)) = Some y"
    obtain c1 o1 again where b: "processPacket_body cfg net key clients = (c1, o1, again)"
      by (metis prod_cases3)
    note bp = processPacket_body_frame_props [OF b]
    show "?Q cfg net key clients y"
    proof (cases again)
      case False
      with eq b have "fst y = c1" by auto
      with bp False show ?thesis by simp
    next
      case True
      with eq b obtain y' where r: "f cfg net key c1 = Some y'" and "fst y = fst y'"
        by (auto simp: bind_eq_Some_conv)
      with IH [OF r] bp show ?thesis by simp
    qed
  qed
  then show ?thesis by simp
qed

lemma map_of_mapAssign: "map_of (mapAssign k v al) = (map_of al)(k \<mapsto> v)"
  by (induction al) (auto simp: fun_eq_iff)

lemma keys_mapAssign: "set (map fst (mapAssign k v al)) = insert k (set (map fst al))"
proof -
  have "dom (map_of (mapAssign k v al)) = insert k (dom (map_of al))"
    by (simp add: map_of_mapAssign)
  then show ?thesis
    by (simp add: dom_map_of_conv_image_fst)
qed

lemma sorted_mapAssign:
  "sorted_wrt (<) (map fst al) \<Longrightarrow> sorted_wrt (<) (map fst (mapAssign k v al))"
proof (induction al)
  case Nil
  then show ?case by simp
next
  case (Cons p al)
  obtain k' v' where p: "p = (k', v')" by (cases p)
  from Cons.prems p have s: "sorted_wrt (<) (map fst al)" and lt: "\<forall>x \<in> set (map fst al). k' < x"
    by auto
  show ?case
  proof (cases "k < k'")
    case True
    with Cons.prems p lt show ?thesis by auto
  next
    case False
    show ?thesis
    proof (cases "k = k'")
      case True
      with Cons.prems p show ?thesis by auto
    next
      case ne: False
      with False have "k' < k" by simp
      with False ne p s lt Cons.IH show ?thesis
        by (auto simp: keys_mapAssign simp del: set_map)
    qed
  qed
qed

lemma map_of_fold_delete:
  "map_of (fold AList.delete ks al) k = (if k \<in> set ks then None else map_of al k)"
  by (induction ks arbitrary: al) (auto simp: delete_conv')

lemma sorted_fold_delete:
  "sorted_wrt (<) (map fst al) \<Longrightarrow> sorted_wrt (<) (map fst (fold AList.delete ks al))"
proof (induction ks arbitrary: al)
  case Nil
  then show ?case by simp
next
  case (Cons k ks)
  have "sorted_wrt (<) (map fst (AList.delete k al))"
    using Cons.prems by (simp add: delete_keys removeAll_filter_not_eq sorted_wrt_filter)
  then show ?case using Cons.IH by simp
qed

lemma keys_map_entry: "map fst (AList.map_entry k f al) = map fst al"
  by (induction al) auto

lemma readLoop_props:
  "readLoop cfg net rd ks (clients, evs, toRemove) = Some (clients', evs', toRemove')
   \<Longrightarrow> (\<forall>k s. map_of clients k = Some s \<longrightarrow> k \<in> set toRemove \<or> awaitsData (inbox s))
   \<Longrightarrow> (\<forall>k s. map_of clients' k = Some s \<longrightarrow> k \<in> set toRemove' \<or> awaitsData (inbox s))
       \<and> map fst clients' = map fst clients"
proof (induction ks arbitrary: clients evs toRemove)
  case Nil
  then show ?case by simp
next
  case (Cons k ks)
  show ?case
  proof (cases "rd k")
    case None
    with Cons.prems(1) have "readLoop cfg net rd ks (clients, evs, toRemove)
        = Some (clients', evs', toRemove')" by simp
    from Cons.IH [OF this Cons.prems(2)] show ?thesis .
  next
    case (Some received)
    show ?thesis
    proof (cases "received = []")
      case True
      with Some Cons.prems(1)
      have r: "readLoop cfg net rd ks
                 (clients, evs @ log (LogCloseFd k) (quiet cfg) @ [Close k], toRemove @ [k])
               = Some (clients', evs', toRemove')" by simp
      from Cons.prems(2)
      have "\<forall>k' s. map_of clients k' = Some s \<longrightarrow> k' \<in> set (toRemove @ [k]) \<or> awaitsData (inbox s)"
        by auto
      from Cons.IH [OF r this] show ?thesis .
    next
      case False
      let ?c0 = "AList.map_entry k (\<lambda>s. s\<lparr>inbox := inbox s @ received\<rparr>) clients"
      from Some False Cons.prems(1) obtain c1 out where
        p: "processPacket cfg net k ?c0 = Some (c1, out)"
        by (auto split: option.splits)
      let ?R = "if (case map_of c1 k of None \<Rightarrow> False | Some s \<Rightarrow> fd s < 0)
                then toRemove @ [k] else toRemove"
      from Some False Cons.prems(1) p
      have r: "readLoop cfg net rd ks (c1, evs @ out, ?R) = Some (clients', evs', toRemove')"
        by simp
      from processPacket_props [OF p]
      have keys: "map fst c1 = map fst ?c0"
        and others: "\<forall>k'. k' \<noteq> k \<longrightarrow> map_of c1 k' = map_of ?c0 k'"
        and self: "\<forall>s. map_of c1 k = Some s \<longrightarrow> fd s < 0 \<or> awaitsData (inbox s)"
        by simp_all
      have inv: "\<forall>k' s. map_of c1 k' = Some s \<longrightarrow> k' \<in> set ?R \<or> awaitsData (inbox s)"
      proof (intro allI impI)
        fix k' s
        assume m: "map_of c1 k' = Some s"
        show "k' \<in> set ?R \<or> awaitsData (inbox s)"
        proof (cases "k' = k")
          case True
          with m self show ?thesis by auto
        next
          case False
          with others m have "map_of clients k' = Some s"
            by (simp add: map_of_map_entry)
          with Cons.prems(2) show ?thesis by auto
        qed
      qed
      from Cons.IH [OF r inv] keys show ?thesis by (simp add: keys_map_entry)
    qed
  qed
qed

lemma tick_props:
  assumes t: "tick cfg net inp clients = Some (clients', evs)"
    and inv: "\<forall>k s. map_of clients k = Some s \<longrightarrow> awaitsData (inbox s)"
    and srt: "sorted_wrt (<) (map fst clients)"
  shows "(\<forall>k s. map_of clients' k = Some s \<longrightarrow> awaitsData (inbox s))
         \<and> sorted_wrt (<) (map fst clients')"
proof -
  obtain c1 e1 where a: "acceptPhase cfg (accepted inp) clients = (c1, e1)"
    by (cases "acceptPhase cfg (accepted inp) clients")
  let ?rd = "\<lambda>k. if k \<in> set (map fst clients) \<and> 0 \<le> k then readable inp k else None"
  from t a obtain c2 R where
    r: "readLoop cfg net ?rd (map fst c1) (c1, e1, []) = Some (c2, evs, R)"
    and c': "clients' = fold AList.delete R c2"
    by (auto simp: tick_def Let_def split: option.splits)
  have inv1: "\<forall>k s. map_of c1 k = Some s \<longrightarrow> k \<in> set [] \<or> awaitsData (inbox s)"
    using a inv
    by (auto simp: acceptPhase_def map_of_mapAssign defaultSession_def awaitsData_short
          split: option.splits if_splits)
  have srt1: "sorted_wrt (<) (map fst c1)"
    using a srt by (auto simp: acceptPhase_def sorted_mapAssign split: option.splits if_splits)
  from readLoop_props [OF r inv1]
  have inv2: "\<forall>k s. map_of c2 k = Some s \<longrightarrow> k \<in> set R \<or> awaitsData (inbox s)"
    and keys: "map fst c2 = map fst c1" by simp_all
  from inv2 have "\<forall>k s. map_of clients' k = Some s \<longrightarrow> awaitsData (inbox s)"
    by (auto simp: c' map_of_fold_delete split: if_splits)
  moreover from srt1 keys have "sorted_wrt (<) (map fst clients')"
    by (simp add: c' sorted_fold_delete)
  ultimately show ?thesis by simp
qed

lemma ticks_props:
  "ticks cfg net inps clients = Some (clients', evs)
   \<Longrightarrow> \<forall>k s. map_of clients k = Some s \<longrightarrow> awaitsData (inbox s)
   \<Longrightarrow> sorted_wrt (<) (map fst clients)
   \<Longrightarrow> (\<forall>k s. map_of clients' k = Some s \<longrightarrow> awaitsData (inbox s))
       \<and> sorted_wrt (<) (map fst clients')"
proof (induction inps arbitrary: clients evs)
  case Nil
  then show ?case by simp
next
  case (Cons inp inps)
  from Cons.prems(1) obtain c1 e1 e2 where t: "tick cfg net inp clients = Some (c1, e1)"
    and r: "ticks cfg net inps c1 = Some (clients', e2)"
    by (auto split: option.splits)
  from tick_props [OF t Cons.prems(2,3)] Cons.IH [OF r] show ?case by simp
qed

lemma awaitsData_no_frame:
  assumes a: "awaitsData buf" and p: "prefix q buf"
    and d: "decodeRemainingLength q 1 = (True, off, len)"
  shows "length buf < off + unat len"
proof -
  from p obtain r where "buf = q @ r" by (auto simp: prefix_def)
  with decode_append [OF d] have "decodeRemainingLength buf 1 = (True, off, len)" by simp
  with a have l: "length buf < unat ((of_nat off :: 64 word) + len)"
    by (simp add: awaitsData_def)
  have "unat ((of_nat off :: 64 word) + len) \<le> unat (of_nat off :: 64 word) + unat len"
    by (simp add: unat_word_ariths)
  also have "unat (of_nat off :: 64 word) \<le> off"
    by (simp add: unat_of_nat)
  finally show ?thesis using l by simp
qed

lemma processPacket_body_fd:
  assumes b: "processPacket_body cfg net key clients = (clients', out, again)"
    and m: "map_of clients key = Some s" and m': "map_of clients' key = Some s'"
  shows "fd s' = fd s \<or> (\<not> again \<and> fd s' < 0)"
proof -
  obtain ok off len where d: "decodeRemainingLength (inbox s) (Suc 0) = (ok, off, len)"
    by (cases "decodeRemainingLength (inbox s) (Suc 0)") auto
  let ?total = "unat ((of_nat off :: 64 word) + len)"
  show ?thesis
  proof (cases "2 \<le> length (inbox s) \<and> ok \<and> \<not> length (inbox s) < ?total")
    case False
    with b m d have "clients' = clients"
      by (auto simp: processPacket_body_def Let_def split: if_splits)
    with m m' show ?thesis by simp
  next
    case True
    let ?c1 = "s\<lparr>inbox := drop ?total (inbox s)\<rparr>"
    obtain c2 o2 a2 where sw: "processPacket_switch cfg net (AList.update key ?c1 clients) ?c1
        (inbox s ! 0) off (take ?total (inbox s)) = (c2, o2, a2)"
      by (metis prod_cases3)
    from b m d True sw have "clients' = AList.update key c2 clients" and "again = a2"
      by (auto simp: processPacket_body_def Let_def)
    with m' have "s' = c2" and "again = a2" by (simp_all add: update_conv')
    with processPacket_switch_fields [OF sw] show ?thesis by auto
  qed
qed

lemma processPacket_fd:
  assumes run: "processPacket cfg net key clients = Some y"
  shows "\<forall>s s'. map_of clients key = Some s \<longrightarrow> map_of (fst y) key = Some s'
           \<longrightarrow> fd s' < 0 \<or> fd s' = fd s"
proof -
  let ?Q = "\<lambda>(cfg :: Config) (net :: network) key clients (y :: clients \<times> event list).
      \<forall>s s'. map_of clients key = Some s \<longrightarrow> map_of (fst y) key = Some s'
        \<longrightarrow> fd s' < 0 \<or> fd s' = fd s"
  show "?Q cfg net key clients y"
  proof (rule processPacket.raw_induct [where P = ?Q, OF _ run])
    fix f cfg net key clients y
    assume IH: "\<And>cfg net key clients y. f cfg net key clients = Some y \<Longrightarrow> ?Q cfg net key clients y"
      and eq: "(case processPacket_body cfg net key clients of
                  (clients', out, again) \<Rightarrow>
                    if again
                    then Option.bind (f cfg net key clients')
                           (\<lambda>(clients'', out'). Some (clients'', out @ out'))
                    else Some (clients', out)) = Some y"
    obtain c1 o1 again where b: "processPacket_body cfg net key clients = (c1, o1, again)"
      by (metis prod_cases3)
    show "?Q cfg net key clients y"
    proof (intro allI impI)
      fix s s'
      assume m: "map_of clients key = Some s" and m': "map_of (fst y) key = Some s'"
      show "fd s' < 0 \<or> fd s' = fd s"
      proof (cases again)
        case False
        with eq b have "fst y = c1" by auto
        with processPacket_body_fd [OF b m] m' show ?thesis by auto
      next
        case True
        with eq b obtain y' where r: "f cfg net key c1 = Some y'" and e: "fst y = fst y'"
          by (auto simp: bind_eq_Some_conv)
        from processPacket_body_frame_props [OF b] m
        have "key \<in> set (map fst c1)"
          by (metis map_of_eq_None_iff option.distinct(1) set_map)
        then obtain s1 where m1: "map_of c1 key = Some s1"
          by (metis map_of_eq_None_iff not_Some_eq set_map)
        from processPacket_body_fd [OF b m m1] True have "fd s1 = fd s" by simp
        moreover from IH [OF r] m1 m' e have "fd s' < 0 \<or> fd s' = fd s1" by simp
        ultimately show ?thesis by auto
      qed
    qed
  qed
qed

lemma readLoop_fd:
  "readLoop cfg net rd ks (clients, evs, toRemove) = Some (clients', evs', toRemove')
   \<Longrightarrow> (\<forall>k s. map_of clients k = Some s \<longrightarrow> k \<in> set toRemove \<or> fd s = k)
   \<Longrightarrow> (\<forall>k s. map_of clients' k = Some s \<longrightarrow> k \<in> set toRemove' \<or> fd s = k)"
proof (induction ks arbitrary: clients evs toRemove)
  case Nil
  then show ?case by simp
next
  case (Cons k ks)
  show ?case
  proof (cases "rd k")
    case None
    with Cons.prems(1) have "readLoop cfg net rd ks (clients, evs, toRemove)
        = Some (clients', evs', toRemove')" by simp
    from Cons.IH [OF this Cons.prems(2)] show ?thesis .
  next
    case (Some received)
    show ?thesis
    proof (cases "received = []")
      case True
      with Some Cons.prems(1)
      have r: "readLoop cfg net rd ks
                 (clients, evs @ log (LogCloseFd k) (quiet cfg) @ [Close k], toRemove @ [k])
               = Some (clients', evs', toRemove')" by simp
      from Cons.prems(2)
      have "\<forall>k' s. map_of clients k' = Some s \<longrightarrow> k' \<in> set (toRemove @ [k]) \<or> fd s = k'"
        by auto
      from Cons.IH [OF r this] show ?thesis .
    next
      case False
      let ?c0 = "AList.map_entry k (\<lambda>s. s\<lparr>inbox := inbox s @ received\<rparr>) clients"
      from Some False Cons.prems(1) obtain c1 out where
        p: "processPacket cfg net k ?c0 = Some (c1, out)"
        by (auto split: option.splits)
      let ?R = "if (case map_of c1 k of None \<Rightarrow> False | Some s \<Rightarrow> fd s < 0)
                then toRemove @ [k] else toRemove"
      from Some False Cons.prems(1) p
      have r: "readLoop cfg net rd ks (c1, evs @ out, ?R) = Some (clients', evs', toRemove')"
        by simp
      from processPacket_props [OF p]
      have others: "\<forall>k'. k' \<noteq> k \<longrightarrow> map_of c1 k' = map_of ?c0 k'"
        and keys: "map fst c1 = map fst ?c0"
        by simp_all
      have inv: "\<forall>k' s. map_of c1 k' = Some s \<longrightarrow> k' \<in> set ?R \<or> fd s = k'"
      proof (intro allI impI)
        fix k' s
        assume m: "map_of c1 k' = Some s"
        show "k' \<in> set ?R \<or> fd s = k'"
        proof (cases "k' = k")
          case True
          from m True keys have "k \<in> set (map fst clients)"
            by (metis keys_map_entry map_of_eq_None_iff option.distinct(1) set_map)
          then obtain s0 where m0: "map_of clients k = Some s0"
            by (metis map_of_eq_None_iff not_Some_eq set_map)
          then have m0': "map_of ?c0 k = Some (s0\<lparr>inbox := inbox s0 @ received\<rparr>)"
            by (simp add: map_of_map_entry)
          from processPacket_fd [OF p] m0' m True
          have "fd s < 0 \<or> fd s = fd s0" by auto
          moreover from Cons.prems(2) m0 have "k \<in> set toRemove \<or> fd s0 = k" by blast
          ultimately show ?thesis using m True by auto
        next
          case False
          with others m have "map_of clients k' = Some s"
            by (simp add: map_of_map_entry)
          with Cons.prems(2) show ?thesis by auto
        qed
      qed
      from Cons.IH [OF r inv] show ?thesis .
    qed
  qed
qed

lemma readLoop_keys:
  "readLoop cfg net rd ks (clients, evs, toRemove) = Some (clients', evs', toRemove')
   \<Longrightarrow> map fst clients' = map fst clients"
proof (induction ks arbitrary: clients evs toRemove)
  case Nil
  then show ?case by simp
next
  case (Cons k ks)
  show ?case
  proof (cases "rd k")
    case None
    with Cons show ?thesis by simp
  next
    case (Some received)
    show ?thesis
    proof (cases "received = []")
      case True
      with Some Cons show ?thesis by simp
    next
      case False
      let ?c0 = "AList.map_entry k (\<lambda>s. s\<lparr>inbox := inbox s @ received\<rparr>) clients"
      from Some False Cons.prems obtain c1 out where
        p: "processPacket cfg net k ?c0 = Some (c1, out)"
        by (auto split: option.splits)
      let ?R = "if (case map_of c1 k of None \<Rightarrow> False | Some s \<Rightarrow> fd s < 0)
                then toRemove @ [k] else toRemove"
      from Some False Cons.prems p
      have r: "readLoop cfg net rd ks (c1, evs @ out, ?R) = Some (clients', evs', toRemove')"
        by simp
      from processPacket_props [OF p] have "map fst c1 = map fst clients"
        by (simp add: keys_map_entry)
      with Cons.IH [OF r] show ?thesis by simp
    qed
  qed
qed

lemma tick_fd:
  assumes t: "tick cfg net inp clients = Some (clients', evs)"
    and inv: "\<forall>k s. map_of clients k = Some s \<longrightarrow> fd s = k \<and> 0 \<le> k"
  shows "\<forall>k s. map_of clients' k = Some s \<longrightarrow> fd s = k \<and> 0 \<le> k"
proof -
  obtain c1 e1 where a: "acceptPhase cfg (accepted inp) clients = (c1, e1)"
    by (cases "acceptPhase cfg (accepted inp) clients")
  let ?rd = "\<lambda>k. if k \<in> set (map fst clients) \<and> 0 \<le> k then readable inp k else None"
  from t a obtain c2 R where
    r: "readLoop cfg net ?rd (map fst c1) (c1, e1, []) = Some (c2, evs, R)"
    and c': "clients' = fold AList.delete R c2"
    by (auto simp: tick_def Let_def split: option.splits)
  have inv1: "\<forall>k s. map_of c1 k = Some s \<longrightarrow> fd s = k \<and> 0 \<le> k"
    using a inv
    by (auto simp: acceptPhase_def map_of_mapAssign defaultSession_def
          split: option.splits if_splits)
  then have "\<forall>k s. map_of c1 k = Some s \<longrightarrow> k \<in> set [] \<or> fd s = k" by simp
  from readLoop_fd [OF r this]
  have inv2: "\<forall>k s. map_of c2 k = Some s \<longrightarrow> k \<in> set R \<or> fd s = k" .
  from readLoop_keys [OF r] have keys: "map fst c2 = map fst c1" .
  have nonneg: "\<forall>k s. map_of c2 k = Some s \<longrightarrow> 0 \<le> k"
  proof (intro allI impI)
    fix k s
    assume "map_of c2 k = Some s"
    then have "k \<in> set (map fst c1)"
      by (metis keys map_of_eq_None_iff option.distinct(1) set_map)
    then obtain s1 where "map_of c1 k = Some s1"
      by (metis map_of_eq_None_iff not_Some_eq set_map)
    with inv1 show "0 \<le> k" by blast
  qed
  from inv2 nonneg show ?thesis
    by (auto simp: c' map_of_fold_delete split: if_splits)
qed

lemma ticks_fd:
  "ticks cfg net inps clients = Some (clients', evs)
   \<Longrightarrow> \<forall>k s. map_of clients k = Some s \<longrightarrow> fd s = k \<and> 0 \<le> k
   \<Longrightarrow> \<forall>k s. map_of clients' k = Some s \<longrightarrow> fd s = k \<and> 0 \<le> k"
proof (induction inps arbitrary: clients evs)
  case Nil
  then show ?case by simp
next
  case (Cons inp inps)
  from Cons.prems(1) obtain c1 e1 e2 where t: "tick cfg net inp clients = Some (c1, e1)"
    and r: "ticks cfg net inps c1 = Some (clients', e2)"
    by (auto split: option.splits)
  from Cons.IH [OF r tick_fd [OF t Cons.prems(2)]] show ?case .
qed

text \<open>
  Every table the server reaches from the empty one has distinct keys, and each session
  is stored under its own descriptor, which is not negative.
\<close>

lemma reachable_table:
  assumes "ticks cfg net inps [] = Some (clients, evs)"
  shows "distinct (map fst clients) \<and> (\<forall>(k, s) \<in> set clients. fd s = k \<and> 0 \<le> k)"
proof -
  from ticks_props [OF assms] have "sorted_wrt (<) (map fst clients)" by simp
  then have d: "distinct (map fst clients)" by (simp add: strict_sorted_iff)
  from ticks_fd [OF assms] have "\<forall>k s. map_of clients k = Some s \<longrightarrow> fd s = k \<and> 0 \<le> k"
    by simp
  with d show ?thesis by auto
qed

lemma processPacket_body_awaits:
  assumes c: "map_of clients key = Some client" and a: "awaitsData (inbox client)"
  shows "processPacket_body cfg net key clients = (clients, [], False)"
proof -
  obtain ok off len where d: "decodeRemainingLength (inbox client) (Suc 0) = (ok, off, len)"
    by (cases "decodeRemainingLength (inbox client) (Suc 0)") auto
  with a have "\<not> ok \<or> length (inbox client) < unat ((of_nat off :: 64 word) + len)"
    by (simp add: awaitsData_def)
  with d show ?thesis
    by (auto simp: processPacket_body_def c Let_def)
qed

text \<open>
  An inbox made of complete frames followed by bytes on which the loop waits: the call
  returns, and unless the session disconnected, exactly those last bytes are left.
\<close>

lemma processPacket_frames:
  assumes "map_of clients key = Some client"
    and "inbox client = concat frames @ tail"
    and "\<forall>f \<in> set frames. completeFrame f" and "awaitsData tail"
  shows "\<exists>clients' out. processPacket cfg net key clients = Some (clients', out)
           \<and> (\<forall>s. map_of clients' key = Some s \<longrightarrow> fd s < 0 \<or> inbox s = tail)"
  using assms
proof (induction frames arbitrary: clients client)
  case Nil
  then have "processPacket_body cfg net key clients = (clients, [], False)"
    by (intro processPacket_body_awaits [of _ _ client]) simp_all
  from processPacket_stop [OF this] Nil show ?case by simp
next
  case (Cons f frames)
  from Cons.prems(3) have cf: "completeFrame f" and rest: "\<forall>f \<in> set frames. completeFrame f"
    by simp_all
  from cf obtain off len where dec: "decodeRemainingLength f 1 = (True, off, len)"
    and tot: "unat ((of_nat off :: 64 word) + len) = length f"
    by (rule completeFrame_decode)
  let ?rest = "concat frames @ tail"
  let ?c1 = "client\<lparr>inbox := ?rest\<rparr>"
  have i: "inbox client = f @ ?rest" using Cons.prems(2) by simp
  obtain c2 out again where sw: "processPacket_switch cfg net (AList.update key ?c1 clients) ?c1
      (f ! 0) off f = (c2, out, again)"
    by (metis prod_cases3)
  let ?raw = "if logPackets cfg then [LogRaw (drop_bit 4 (f ! 0) AND 0x0F) f] else []"
  have body: "processPacket_body cfg net key clients
                = (AList.update key c2 clients, ?raw @ out, again)"
    by (simp add: processPacket_body_frame [OF Cons.prems(1) i dec tot] sw)
  from processPacket_switch_fields [OF sw]
  have i2: "inbox c2 = ?rest" and f2: "\<not> again \<longrightarrow> fd c2 < 0" by simp_all
  have m2: "map_of (AList.update key c2 clients) key = Some c2" by (simp add: update_conv')
  show ?case
  proof (cases again)
    case False
    with body have "processPacket_body cfg net key clients
        = (AList.update key c2 clients, ?raw @ out, False)" by simp
    from processPacket_stop [OF this] f2 False m2 show ?thesis by simp
  next
    case True
    with body have b: "processPacket_body cfg net key clients
        = (AList.update key c2 clients, ?raw @ out, True)" by simp
    from Cons.IH [OF m2 i2 rest Cons.prems(4)] obtain clients' out' where
      r: "processPacket cfg net key (AList.update key c2 clients) = Some (clients', out')"
      and p: "\<forall>s. map_of clients' key = Some s \<longrightarrow> fd s < 0 \<or> inbox s = tail" by blast
    from processPacket_again [OF b] r p show ?thesis by simp
  qed
qed

lemma readLoop_grows:
  "readLoop cfg net rd ks (clients, evs, toRemove) = Some (clients', evs', toRemove')
   \<Longrightarrow> set toRemove \<subseteq> set toRemove'
       \<and> (\<forall>k. k \<notin> set ks \<longrightarrow> map_of clients' k = map_of clients k)"
proof (induction ks arbitrary: clients evs toRemove)
  case Nil
  then show ?case by simp
next
  case (Cons k ks)
  show ?case
  proof (cases "rd k")
    case None
    with Cons.prems have "readLoop cfg net rd ks (clients, evs, toRemove)
        = Some (clients', evs', toRemove')" by simp
    from Cons.IH [OF this] show ?thesis by simp
  next
    case (Some received)
    show ?thesis
    proof (cases "received = []")
      case True
      with Some Cons.prems
      have "readLoop cfg net rd ks
              (clients, evs @ log (LogCloseFd k) (quiet cfg) @ [Close k], toRemove @ [k])
            = Some (clients', evs', toRemove')" by simp
      from Cons.IH [OF this] show ?thesis by simp
    next
      case False
      let ?c0 = "AList.map_entry k (\<lambda>s. s\<lparr>inbox := inbox s @ received\<rparr>) clients"
      from Some False Cons.prems obtain c1 out where
        p: "processPacket cfg net k ?c0 = Some (c1, out)"
        by (auto split: option.splits)
      let ?R = "if (case map_of c1 k of None \<Rightarrow> False | Some s \<Rightarrow> fd s < 0)
                then toRemove @ [k] else toRemove"
      from Some False Cons.prems p
      have r: "readLoop cfg net rd ks (c1, evs @ out, ?R) = Some (clients', evs', toRemove')"
        by simp
      from processPacket_props [OF p]
      have others: "\<forall>k'. k' \<noteq> k \<longrightarrow> map_of c1 k' = map_of clients k'"
        by (simp add: map_of_map_entry)
      from Cons.IH [OF r] others show ?thesis by auto
    qed
  qed
qed

lemma readLoop_frames:
  assumes "distinct ks"
    and "\<forall>k \<in> set ks. \<forall>s chunk. map_of clients k = Some s \<longrightarrow> rd k = Some chunk \<longrightarrow>
           inbox s @ chunk = concat (frames k) @ tail k
           \<and> (\<forall>f \<in> set (frames k). completeFrame f) \<and> awaitsData (tail k)"
  shows "\<exists>clients' evs' toRemove'.
           readLoop cfg net rd ks (clients, evs, toRemove) = Some (clients', evs', toRemove')
           \<and> (\<forall>k \<in> set ks. \<forall>s chunk. rd k = Some chunk \<longrightarrow> map_of clients' k = Some s \<longrightarrow>
                 k \<in> set toRemove' \<or> inbox s = tail k)"
  using assms
proof (induction ks arbitrary: clients evs toRemove)
  case Nil
  then show ?case by simp
next
  case (Cons k ks)
  from Cons.prems(1) have dk: "distinct ks" and nk: "k \<notin> set ks" by simp_all
  have carry: "\<forall>k' \<in> set ks. \<forall>s chunk. map_of c k' = Some s \<longrightarrow> rd k' = Some chunk \<longrightarrow>
           inbox s @ chunk = concat (frames k') @ tail k'
           \<and> (\<forall>f \<in> set (frames k'). completeFrame f) \<and> awaitsData (tail k')"
    if "\<forall>k'. k' \<noteq> k \<longrightarrow> map_of c k' = map_of clients k'" for c
    using that Cons.prems(2) nk by (metis list.set_intros(2))
  show ?case
  proof (cases "rd k")
    case None
    from Cons.IH [OF dk carry [of clients], of evs toRemove] None show ?thesis by auto
  next
    case (Some received)
    show ?thesis
    proof (cases "received = []")
      case True
      from Cons.IH [OF dk carry [of clients],
          of "evs @ log (LogCloseFd k) (quiet cfg) @ [Close k]" "toRemove @ [k]"]
      obtain c' e' R' where r: "readLoop cfg net rd ks
              (clients, evs @ log (LogCloseFd k) (quiet cfg) @ [Close k], toRemove @ [k])
            = Some (c', e', R')"
        and t: "\<forall>k \<in> set ks. \<forall>s chunk. rd k = Some chunk \<longrightarrow> map_of c' k = Some s \<longrightarrow>
                 k \<in> set R' \<or> inbox s = tail k" by auto
      from readLoop_grows [OF r] have "k \<in> set R'" by auto
      with r t Some True show ?thesis by auto
    next
      case False
      let ?c0 = "AList.map_entry k (\<lambda>s. s\<lparr>inbox := inbox s @ received\<rparr>) clients"
      have "\<exists>c1 out. processPacket cfg net k ?c0 = Some (c1, out)
              \<and> (\<forall>s. map_of c1 k = Some s \<longrightarrow> fd s < 0 \<or> inbox s = tail k)"
      proof (cases "map_of clients k")
        case None
        then have "map_of ?c0 k = None" by (simp add: map_of_map_entry)
        then have "processPacket_body cfg net k ?c0 = (?c0, [], False)"
          by (simp add: processPacket_body_def)
        from processPacket_stop [OF this] \<open>map_of ?c0 k = None\<close> show ?thesis by simp
      next
        case (Some s)
        let ?s0 = "s\<lparr>inbox := inbox s @ received\<rparr>"
        have m0: "map_of ?c0 k = Some ?s0" using Some by (simp add: map_of_map_entry)
        from Cons.prems(2) Some \<open>rd k = Some received\<close>
        have "inbox ?s0 = concat (frames k) @ tail k"
          and "\<forall>f \<in> set (frames k). completeFrame f" and "awaitsData (tail k)"
          by simp_all
        from processPacket_frames [OF m0 this] show ?thesis .
      qed
      then obtain c1 out where p: "processPacket cfg net k ?c0 = Some (c1, out)"
        and pk: "\<forall>s. map_of c1 k = Some s \<longrightarrow> fd s < 0 \<or> inbox s = tail k" by blast
      let ?R = "if (case map_of c1 k of None \<Rightarrow> False | Some s \<Rightarrow> fd s < 0)
                then toRemove @ [k] else toRemove"
      from processPacket_props [OF p]
      have others: "\<forall>k'. k' \<noteq> k \<longrightarrow> map_of c1 k' = map_of clients k'"
        by (simp add: map_of_map_entry)
      from Cons.IH [OF dk carry [OF others], of "evs @ out" ?R]
      obtain c' e' R' where r: "readLoop cfg net rd ks (c1, evs @ out, ?R) = Some (c', e', R')"
        and t: "\<forall>k \<in> set ks. \<forall>s chunk. rd k = Some chunk \<longrightarrow> map_of c' k = Some s \<longrightarrow>
                 k \<in> set R' \<or> inbox s = tail k" by auto
      from readLoop_grows [OF r] nk have sub: "set ?R \<subseteq> set R'"
        and same: "map_of c' k = map_of c1 k" by auto
      have hd: "\<forall>s. map_of c' k = Some s \<longrightarrow> k \<in> set R' \<or> inbox s = tail k"
      proof (intro allI impI)
        fix s assume "map_of c' k = Some s"
        with same have m: "map_of c1 k = Some s" by simp
        with pk have "fd s < 0 \<or> inbox s = tail k" by blast
        then show "k \<in> set R' \<or> inbox s = tail k"
        proof
          assume "fd s < 0"
          with m have "k \<in> set ?R" by simp
          with sub show ?thesis by blast
        qed simp
      qed
      have "readLoop cfg net rd (k # ks) (clients, evs, toRemove) = Some (c', e', R')"
        using Some False p r by simp
      with t hd show ?thesis by auto
    qed
  qed
qed

text \<open>
  A loop iteration on a table without complete frames, in which every inbox that is read
  becomes a sequence of complete frames followed by bytes on which the loop waits:
  the iteration returns, and each session that was read and is still in the table is
  left with exactly those last bytes.
\<close>

lemma tick_frames:
  assumes srt: "sorted_wrt (<) (map fst clients)"
    and inv: "\<forall>(k, s) \<in> set clients. awaitsData (inbox s)"
    and acc: "\<forall>nf. accepted inp = Some nf \<longrightarrow> nf \<notin> set (map fst clients)"
    and frm: "\<forall>(k, s) \<in> set clients. \<forall>chunk. readable inp k = Some chunk \<longrightarrow>
                inbox s @ chunk = concat (frames k) @ tail k
                \<and> (\<forall>f \<in> set (frames k). completeFrame f) \<and> awaitsData (tail k)"
  shows "\<exists>clients' evs'.
           tick cfg net inp clients = Some (clients', evs')
           \<and> sorted_wrt (<) (map fst clients')
           \<and> (\<forall>(k, s) \<in> set clients'.
                 awaitsData (inbox s)
                 \<and> (\<forall>chunk. k \<in> set (map fst clients) \<and> 0 \<le> k \<and> readable inp k = Some chunk
                       \<longrightarrow> inbox s = tail k))"
proof -
  from srt have dist: "distinct (map fst clients)" by (simp add: strict_sorted_iff)
  obtain c1 e1 where a: "acceptPhase cfg (accepted inp) clients = (c1, e1)"
    by (cases "acceptPhase cfg (accepted inp) clients")
  let ?rd = "\<lambda>k. if k \<in> set (map fst clients) \<and> 0 \<le> k then readable inp k else None"
  have srt1: "sorted_wrt (<) (map fst c1)"
    using a srt by (auto simp: acceptPhase_def sorted_mapAssign split: option.splits if_splits)
  then have dist1: "distinct (map fst c1)" by (simp add: strict_sorted_iff)
  have old: "map_of c1 k = map_of clients k" if "k \<in> set (map fst clients)" for k
  proof (cases "accepted inp")
    case None
    with a show ?thesis by (simp add: acceptPhase_def)
  next
    case (Some nf)
    with acc that have "nf \<noteq> k" by auto
    with a Some show ?thesis
      by (auto simp: acceptPhase_def map_of_mapAssign split: if_splits)
  qed
  have inv1: "\<forall>k s. map_of c1 k = Some s \<longrightarrow> k \<in> set [] \<or> awaitsData (inbox s)"
  proof (intro allI impI)
    fix k s assume m: "map_of c1 k = Some s"
    have "awaitsData (inbox s)"
    proof (cases "map_of clients k = Some s")
      case True
      then have "(k, s) \<in> set clients" by (rule map_of_SomeD)
      with inv show ?thesis by blast
    next
      case False
      with a m have "inbox s = []"
        by (auto simp: acceptPhase_def map_of_mapAssign defaultSession_def
              split: option.splits if_splits)
      then show ?thesis by (simp add: awaitsData_short)
    qed
    then show "k \<in> set [] \<or> awaitsData (inbox s)" by simp
  qed
  have frm1: "\<forall>k \<in> set (map fst c1). \<forall>s chunk. map_of c1 k = Some s \<longrightarrow> ?rd k = Some chunk \<longrightarrow>
           inbox s @ chunk = concat (frames k) @ tail k
           \<and> (\<forall>f \<in> set (frames k). completeFrame f) \<and> awaitsData (tail k)"
  proof (intro ballI allI impI)
    fix k s chunk
    assume m: "map_of c1 k = Some s" and r: "?rd k = Some chunk"
    from r have k: "k \<in> set (map fst clients)" and rc: "readable inp k = Some chunk"
      by (auto split: if_splits)
    from old [OF k] m have "(k, s) \<in> set clients" by (simp add: map_of_SomeD)
    with frm rc show "inbox s @ chunk = concat (frames k) @ tail k
           \<and> (\<forall>f \<in> set (frames k). completeFrame f) \<and> awaitsData (tail k)" by blast
  qed
  from readLoop_frames [OF dist1 frm1, of cfg net e1 "[]"]
  obtain c2 e2 R where r: "readLoop cfg net ?rd (map fst c1) (c1, e1, []) = Some (c2, e2, R)"
    and tl: "\<forall>k \<in> set (map fst c1). \<forall>s chunk. ?rd k = Some chunk \<longrightarrow> map_of c2 k = Some s \<longrightarrow>
               k \<in> set R \<or> inbox s = tail k" by blast
  from readLoop_props [OF r inv1]
  have inv2: "\<forall>k s. map_of c2 k = Some s \<longrightarrow> k \<in> set R \<or> awaitsData (inbox s)"
    and keys: "map fst c2 = map fst c1" by simp_all
  let ?c' = "fold AList.delete R c2"
  have t: "tick cfg net inp clients = Some (?c', e2)"
    by (simp only: tick_def Let_def a r prod.case option.case)
  have srt': "sorted_wrt (<) (map fst ?c')"
    using srt1 keys by (simp add: sorted_fold_delete)
  then have dist': "distinct (map fst ?c')" by (simp add: strict_sorted_iff)
  have post: "\<forall>(k, s) \<in> set ?c'.
                 awaitsData (inbox s)
                 \<and> (\<forall>chunk. k \<in> set (map fst clients) \<and> 0 \<le> k \<and> readable inp k = Some chunk
                       \<longrightarrow> inbox s = tail k)"
  proof (intro ballI, clarify, intro conjI allI impI)
    fix k s
    assume "(k, s) \<in> set ?c'"
    with dist' have "map_of ?c' k = Some s" by simp
    then have nr: "k \<notin> set R" and m2: "map_of c2 k = Some s"
      by (auto simp: map_of_fold_delete split: if_splits)
    from inv2 m2 nr show "awaitsData (inbox s)" by blast
    fix chunk
    assume h: "k \<in> set (map fst clients) \<and> 0 \<le> k \<and> readable inp k = Some chunk"
    then have "?rd k = Some chunk" by simp
    moreover from m2 keys have "k \<in> set (map fst c1)"
      by (metis map_of_eq_None_iff option.distinct(1) set_map)
    ultimately show "inbox s = tail k" using tl m2 nr by blast
  qed
  from t srt' post show ?thesis by blast
qed

lemma ticks_single: "ticks cfg net [inp] clients = tick cfg net inp clients"
  by (cases "tick cfg net inp clients") auto

lemma fragments_as_one_read:
  assumes "chunks \<noteq> []" and "\<forall>c \<in> set chunks. c \<noteq> []"
    and "distinct (map fst clients)" and "map_of clients key = Some client"
    and "0 \<le> fd client" and "completeFrame (inbox client @ concat chunks)"
    and "0 \<le> key"
  shows "ticks cfg net (map (recvOn key) chunks) clients
           = tick cfg net (recvOn key (concat chunks)) clients"
  using assms
proof (induction chunks arbitrary: clients client)
  case Nil
  then show ?case by simp
next
  case (Cons c chunks)
  show ?case
  proof (cases "chunks = []")
    case True
    then show ?thesis using ticks_single [of cfg net "recvOn key c" clients] by simp
  next
    case False
    from Cons.prems(2) have cne: "c \<noteq> []" and rne: "\<forall>c \<in> set chunks. c \<noteq> []" by auto
    from False rne have restne: "concat chunks \<noteq> []" by (cases chunks) auto
    let ?c1 = "client\<lparr>inbox := inbox client @ c\<rparr>"
    let ?cl1 = "AList.update key ?c1 clients"
    have m1: "map_of ?cl1 key = Some ?c1" by (simp add: update_conv')
    have d1: "distinct (map fst ?cl1)" using Cons.prems(3) by (rule distinct_update)
    have cf: "completeFrame ((inbox client @ c) @ concat chunks)"
      using Cons.prems(6) by simp
    have p1: "processPacket cfg net key ?cl1 = Some (?cl1, [])"
      by (rule processPacket_incomplete [OF m1 _ cf restne]) simp
    have t1: "tick cfg net (recvOn key c) clients = Some (?cl1, [])"
      using Cons.prems(5)
      by (simp add: tick_recvOn [OF Cons.prems(3,4,7) cne] p1 update_conv')
    have ih: "ticks cfg net (map (recvOn key) chunks) ?cl1
                = tick cfg net (recvOn key (concat chunks)) ?cl1"
      by (rule Cons.IH [OF False rne d1 m1]) (use Cons.prems(5,7) cf in simp_all)
    have "ticks cfg net (map (recvOn key) (c # chunks)) clients
            = ticks cfg net (map (recvOn key) chunks) ?cl1"
      by (cases "ticks cfg net (map (recvOn key) chunks) ?cl1") (auto simp: t1)
    also note ih
    also have "tick cfg net (recvOn key (concat chunks)) ?cl1
                 = tick cfg net (recvOn key (concat (c # chunks))) clients"
      using cne restne
      by (simp add: tick_recvOn [OF d1 m1 Cons.prems(7) restne]
            tick_recvOn [OF Cons.prems(3,4,7)])
    finally show ?thesis .
  qed
qed

lemma processPacket_one_frame:
  assumes c: "map_of clients key = Some client" and i: "inbox client = frame"
    and f: "completeFrame frame"
  shows "\<exists>r. processPacket cfg net key clients = Some r"
proof -
  from f obtain off len where dec: "decodeRemainingLength frame 1 = (True, off, len)"
    and tot: "unat ((of_nat off :: 64 word) + len) = length frame"
    by (rule completeFrame_decode)
  let ?c1 = "client\<lparr>inbox := []\<rparr>"
  obtain c2 out again where sw: "processPacket_switch cfg net (AList.update key ?c1 clients) ?c1
      (frame ! 0) off frame = (c2, out, again)"
    by (metis prod_cases3)
  have i': "inbox client = frame @ []" using i by simp
  have body: "processPacket_body cfg net key clients
                = (AList.update key c2 clients,
                   (if logPackets cfg then [LogRaw (drop_bit 4 (frame ! 0) AND 0x0F) frame] else [])
                   @ out, again)"
    by (simp add: processPacket_body_frame [OF c i' dec tot] sw)
  show ?thesis
  proof (cases again)
    case False
    with body have "processPacket_body cfg net key clients
        = (AList.update key c2 clients,
           (if logPackets cfg then [LogRaw (drop_bit 4 (frame ! 0) AND 0x0F) frame] else [])
           @ out, False)" by simp
    from processPacket_stop [OF this] show ?thesis by simp
  next
    case True
    from processPacket_switch_fields [OF sw] have "inbox c2 = []" by simp
    then have "processPacket cfg net key (AList.update key c2 clients)
                 = Some (AList.update key c2 clients, [])"
      by (intro processPacket_short [of _ _ c2]) (simp_all add: update_conv')
    moreover from True body have "processPacket_body cfg net key clients
        = (AList.update key c2 clients,
           (if logPackets cfg then [LogRaw (drop_bit 4 (frame ! 0) AND 0x0F) frame] else [])
           @ out, True)" by simp
    ultimately show ?thesis by (simp add: processPacket_again)
  qed
qed

section \<open>Lemmas on what is sent to whom\<close>

lemma sentTo_append: "sentTo f (xs @ ys) = sentTo f xs @ sentTo f ys"
  by (induction f xs rule: sentTo.induct) auto

lemma sentTo_log: "(\<And>g d. msg \<noteq> Send g d) \<Longrightarrow> sentTo f (log msg q) = []"
  by (cases msg) (auto simp: log_def)

lemma sentTo_broadcast_sender:
  "sentTo senderFd (broadcast net topic payload clients senderFd verbose) = []"
  by (induction clients) (auto simp: Let_def sentTo_append)

lemma sentTo_broadcast_absent:
  "k \<notin> fst ` set clients
   \<Longrightarrow> sentTo k (broadcast net topic payload clients senderFd verbose) = []"
  by (induction clients) (auto simp: Let_def sentTo_append)

lemma sentTo_broadcast_other:
  "distinct (map fst clients) \<Longrightarrow> (k, s) \<in> set clients \<Longrightarrow> k \<noteq> senderFd
   \<Longrightarrow> sentTo k (broadcast net topic payload clients senderFd verbose)
       = (if topic \<in> subscriptions s then [buildPublish topic payload] else [])"
proof (induction clients)
  case Nil
  then show ?case by simp
next
  case (Cons p clients)
  obtain k' s' where p: "p = (k', s')" by (cases p)
  show ?case
  proof (cases "k' = k")
    case True
    with Cons.prems p have "s' = s" and "k \<notin> fst ` set clients"
      by (auto simp: image_iff)
    with True p Cons.prems(3) show ?thesis
      by (simp add: Let_def sentTo_append sentTo_broadcast_absent)
  next
    case False
    with Cons p show ?thesis
      by (auto simp: Let_def sentTo_append)
  qed
qed

section \<open>Remaining Length: the fifth byte\<close>

text \<open>
  Claim C2. For every byte slice, decoding a Remaining Length succeeds only if the
  continuation bit clears within the first four length bytes; an encoding whose first
  four length bytes all carry the continuation bit is rejected as malformed.
  The code does not do this: the test \<open>consumed > 4\<close> comes after the fifth byte has been
  read, so a fifth length byte without continuation bit is accepted. At the slice
  \<open>30 80 80 80 80 01\<close>, offset 1, the decoder returns true with offset 6 and length
  268435456.
\<close>

theorem decodeRemainingLength_accepts_fifth_byte:
  "decodeRemainingLength [0x30, 0x80, 0x80, 0x80, 0x80, 0x01] 1 = (True, 6, 268435456)"
  by (simp add: codec_eval)

section \<open>SUBSCRIBE and its SUBACK\<close>

text \<open>
  Claim C1. A SUBSCRIBE with k topic filters is answered by a SUBACK with k granted-QoS
  bytes, each 0x00. The code does not do this: the SUBSCRIBE case records every topic
  filter, but \<open>sendSuback\<close> always sends the five bytes \<open>90 03 PH PL 00\<close>. For the
  SUBSCRIBE \<open>82 0A 00 01 00 01 61 00 00 01 62 00\<close> (packet id 1, topics "a" and "b")
  both topics are subscribed and the SUBACK is \<open>90 03 00 01 00\<close>, with one grant byte.
\<close>

theorem suback_single_grant_for_two_topics:
  "processPacket defaultConfig (\<lambda>fd data. True) 4
     [(4, \<lparr>fd = 4, clientId = [0x41], subscriptions = {},
            inbox = [0x82, 0x0A, 0x00, 0x01, 0x00, 0x01, 0x61, 0x00, 0x00, 0x01, 0x62, 0x00]\<rparr>)]
   = Some ([(4, \<lparr>fd = 4, clientId = [0x41], subscriptions = {[0x62], [0x61]}, inbox = []\<rparr>)],
           [Send 4 [0x90, 0x03, 0x00, 0x01, 0x00]])"
  by (simp add: codec_eval handler_eval defaultConfig_def)

section \<open>Remaining Length: round trip and range\<close>

text \<open>
  Claim C5. For every n in {0, 127, 128, 16383, 16384, 2097151, 2097152, 268435455},
  encoding n as a Remaining Length and decoding the produced bytes yields n and consumes
  exactly the produced bytes; and no value greater than 268435455 has an encoding of one
  to four bytes: the encoder produces at least five bytes for it, and whatever the decoder
  reads from at most four bytes is at most 268435455.
\<close>

theorem remainingLength_roundtrip_and_range:
  "(\<forall>n \<in> {0, 127, 128, 16383, 16384, 2097151, 2097152, 268435455}.
      decodeRemainingLength (encodeRemainingLength n) 0
        = (True, length (encodeRemainingLength n), n))
   \<and> (\<forall>n. 268435455 < n \<longrightarrow> 4 < length (encodeRemainingLength n))
   \<and> (\<forall>buf off off' len.
        decodeRemainingLength buf off = (True, off', len) \<and> off' \<le> off + 4
        \<longrightarrow> len \<le> 268435455)"
proof (intro conjI allI impI)
  show "\<forall>n \<in> {0, 127, 128, 16383, 16384, 2097151, 2097152, 268435455}.
          decodeRemainingLength (encodeRemainingLength n) 0
            = (True, length (encodeRemainingLength n), n)"
    by (simp add: codec_eval)
next
  fix n :: "64 word"
  assume "268435455 < n"
  then have "268435455 < unat n" by (simp add: word_less_nat_alt)
  then have "128 ^ 4 \<le> unat n" by simp
  from encode_loop_length [OF this, of "[]"] show "4 < length (encodeRemainingLength n)"
    by (simp add: encodeRemainingLength_def)
next
  fix buf off off' len
  assume "decodeRemainingLength buf off = (True, off', len) \<and> off' \<le> off + 4"
  then show "len \<le> 268435455"
    using decode_bound by blast
qed

theorem remainingLength_roundtrip_and_range_witness:
  "decodeRemainingLength (encodeRemainingLength 16384) 0 = (True, 3, 16384)
   \<and> encodeRemainingLength 16384 = [0x80, 0x80, 0x01]
   \<and> (268435455 :: 64 word) < 268435456
   \<and> 4 < length (encodeRemainingLength 268435456)
   \<and> decodeRemainingLength [0xFF, 0xFF, 0xFF, 0x7F] 0 = (True, 4, 268435455)
   \<and> (268435455 :: 64 word) \<le> 268435455"
proof -
  have m: "(16384 :: 64 word) \<in> {0, 127, 128, 16383, 16384, 2097151, 2097152, 268435455}"
    by simp
  have e: "encodeRemainingLength 16384 = [0x80, 0x80, 0x01]"
    by (simp add: codec_eval)
  have g: "(268435455 :: 64 word) < 268435456" by simp
  have d: "decodeRemainingLength [0xFF, 0xFF, 0xFF, 0x7F] 0 = (True, 4, 268435455)
           \<and> (4 :: nat) \<le> 0 + 4"
    by (simp add: codec_eval)
  note t = remainingLength_roundtrip_and_range
  from t have "decodeRemainingLength (encodeRemainingLength 16384) 0
                 = (True, length (encodeRemainingLength 16384), 16384)"
    using m by blast
  moreover from t g have "4 < length (encodeRemainingLength 268435456)" by blast
  moreover from t d have "(268435455 :: 64 word) \<le> 268435455" by blast
  ultimately show ?thesis using e g d by simp
qed

section \<open>DISCONNECT\<close>

text \<open>
  Claim C10. When a DISCONNECT packet is extracted from a session's inbox, packet
  processing for that session stops at once: the bytes that follow the DISCONNECT frame in
  the inbox, complete frames included, are never decoded or dispatched, and the session's
  socket is closed. Here \<open>frame\<close> is a complete frame of type 14 at the head of the
  inbox and \<open>rest\<close> is whatever follows it: \<open>processPacket\<close> returns with the
  disconnect line and \<open>close\<close> of the session's descriptor as its only effects (besides
  the raw line when \<open>logPackets\<close> is set), whatever \<open>rest\<close> is; and the loop iteration
  in which the last bytes of the frame were read erases the session, \<open>rest\<close> with it.
\<close>

theorem disconnect_stops_processing:
  assumes d: "distinct (map fst clients)" and c: "map_of clients key = Some client"
    and k0: "0 \<le> key"
    and i: "inbox client @ chunk = frame @ rest" and n: "chunk \<noteq> []"
    and f: "completeFrame frame" and ty: "drop_bit 4 (frame ! 0) = 14"
  shows "processPacket cfg net key (AList.update key (client\<lparr>inbox := frame @ rest\<rparr>) clients)
           = Some (AList.update key (client\<lparr>inbox := rest, fd := -1\<rparr>) clients,
                   (if logPackets cfg then [LogRaw 14 frame] else [])
                   @ log (LogDisconnect (clientId client)) (quiet cfg) @ [Close (fd client)])
         \<and> tick cfg net (recvOn key chunk) clients
           = Some (AList.delete key clients,
                   (if logPackets cfg then [LogRaw 14 frame] else [])
                   @ log (LogDisconnect (clientId client)) (quiet cfg) @ [Close (fd client)])"
proof -
  let ?c0 = "client\<lparr>inbox := frame @ rest\<rparr>"
  let ?cl0 = "AList.update key ?c0 clients"
  let ?E = "(if logPackets cfg then [LogRaw 14 frame] else [])
            @ log (LogDisconnect (clientId client)) (quiet cfg) @ [Close (fd client)]"
  from f obtain off len where dec: "decodeRemainingLength frame 1 = (True, off, len)"
    and tot: "unat ((of_nat off :: 64 word) + len) = length frame"
    by (rule completeFrame_decode)
  have m: "map_of ?cl0 key = Some ?c0" by (simp add: update_conv')
  have body: "processPacket_body cfg net key ?cl0
                = (AList.update key (client\<lparr>inbox := rest, fd := -1\<rparr>) clients, ?E, False)"
    by (simp add: processPacket_body_frame [OF m _ dec tot] processPacket_switch_def ty
          case_DISCONNECT_def)
  have 1: "processPacket cfg net key ?cl0
             = Some (AList.update key (client\<lparr>inbox := rest, fd := -1\<rparr>) clients, ?E)"
    by (rule processPacket_stop [OF body])
  have "tick cfg net (recvOn key chunk) clients = Some (AList.delete key clients, ?E)"
    by (simp add: tick_recvOn [OF d c k0 n] i 1 update_conv' delete_update_same)
  with 1 show ?thesis by simp
qed

theorem disconnect_stops_processing_witness:
  "tick defaultConfig (\<lambda>fd data. True)
     (recvOn 4 [0xE0, 0x00, 0x30, 0x0B, 0x00, 0x04, 0x74, 0x65, 0x73, 0x74,
                0x68, 0x65, 0x6C, 0x6C, 0x6F])
     [(4, \<lparr>fd = 4, clientId = [0x41], subscriptions = {}, inbox = []\<rparr>),
      (5, \<lparr>fd = 5, clientId = [0x42], subscriptions = {[0x74, 0x65, 0x73, 0x74]}, inbox = []\<rparr>)]
   = Some ([(5, \<lparr>fd = 5, clientId = [0x42], subscriptions = {[0x74, 0x65, 0x73, 0x74]},
                  inbox = []\<rparr>)],
           [LogDisconnect [0x41], Close 4])"
proof -
  let ?c4 = "\<lparr>fd = 4, clientId = [0x41], subscriptions = {}, inbox = []\<rparr>"
  let ?c5 = "\<lparr>fd = 5, clientId = [0x42], subscriptions = {[0x74, 0x65, 0x73, 0x74 :: byte]},
              inbox = []\<rparr>"
  let ?rest = "[0x30, 0x0B, 0x00, 0x04, 0x74, 0x65, 0x73, 0x74, 0x68, 0x65, 0x6C, 0x6C, 0x6F :: byte]"
  have h1: "distinct (map fst [(4 :: int, ?c4), (5, ?c5)])" by simp
  have h2: "map_of [(4 :: int, ?c4), (5, ?c5)] 4 = Some ?c4" by simp
  have h0: "(0 :: int) \<le> 4" by simp
  have h3: "inbox ?c4 @ ([0xE0, 0x00] @ ?rest) = [0xE0, 0x00] @ ?rest" by simp
  have h4: "[0xE0, 0x00] @ ?rest \<noteq> []" by simp
  have h5: "completeFrame [0xE0, 0x00]" by (simp add: completeFrame_def codec_eval)
  have h6: "drop_bit 4 ([0xE0, 0x00 :: byte] ! 0) = 14" by simp
  from disconnect_stops_processing [OF h1 h2 h0 h3 h4 h5 h6, of defaultConfig "\<lambda>fd data. True"]
  show ?thesis by (simp add: defaultConfig_def log_def)
qed

section \<open>PUBLISH: acknowledgement and fan-out\<close>

text \<open>
  Claim C6. When a connected session sends the complete PUBLISH bytes
  \<open>32 0D 00 04 74 65 73 74 00 2A 68 65 6C 6C 6F\<close> (QoS 1, topic "test", packet id 42,
  payload "hello"), the broker sends exactly \<open>40 02 00 2A\<close> back to the publisher, and
  every other session subscribed to "test" is sent the QoS-0 PUBLISH
  \<open>30 0B 00 04 74 65 73 74 68 65 6C 6C 6F\<close>; sessions not subscribed are sent nothing.
  The session is the entry \<open>key\<close> of a table with distinct keys, stored under its own
  non-negative descriptor as \<open>main\<close> stores it (lemma \<open>reachable_table\<close>), with an
  empty inbox.
\<close>

theorem publish_qos1_puback_and_fanout:
  assumes d: "distinct (map fst clients)" and c: "map_of clients key = Some client"
    and fk: "fd client = key" and k0: "0 \<le> key" and i: "inbox client = []"
  shows "\<exists>evs.
     tick cfg net
       (recvOn key [0x32, 0x0D, 0x00, 0x04, 0x74, 0x65, 0x73, 0x74, 0x00, 0x2A,
                    0x68, 0x65, 0x6C, 0x6C, 0x6F]) clients = Some (clients, evs)
     \<and> sentTo key evs = [[0x40, 0x02, 0x00, 0x2A]]
     \<and> (\<forall>(k, s) \<in> set clients. k \<noteq> key \<longrightarrow>
          sentTo k evs =
            (if [0x74, 0x65, 0x73, 0x74] \<in> subscriptions s
             then [[0x30, 0x0B, 0x00, 0x04, 0x74, 0x65, 0x73, 0x74, 0x68, 0x65, 0x6C, 0x6C, 0x6F]]
             else []))"
proof -
  let ?P = "[0x32, 0x0D, 0x00, 0x04, 0x74, 0x65, 0x73, 0x74, 0x00, 0x2A,
             0x68, 0x65, 0x6C, 0x6C, 0x6F] :: byte list"
  let ?topic = "[0x74, 0x65, 0x73, 0x74] :: byte list"
  let ?payload = "[0x68, 0x65, 0x6C, 0x6C, 0x6F] :: byte list"
  let ?evs = "[Send key [0x40, 0x02, 0x00, 0x2A]]
              @ (if traceMessages cfg
                 then log (LogPublish (clientId client) ?topic ?payload) (quiet cfg) else [])
              @ broadcast net ?topic ?payload clients key (traceMessages cfg)"
  have dec: "decodeRemainingLength ?P 1 = (True, 2, 13)" by (simp add: codec_eval)
  have tot: "unat ((of_nat 2 :: 64 word) + 13) = length ?P" by simp
  let ?c0 = "client\<lparr>inbox := inbox client @ ?P\<rparr>"
  let ?cl0 = "AList.update key ?c0 clients"
  have m: "map_of ?cl0 key = Some ?c0" by (simp add: update_conv')
  have i0: "inbox ?c0 = ?P @ []" by (simp add: i)
  have same: "client\<lparr>inbox := []\<rparr> = client" using i by simp
  have upd: "AList.update key client clients = clients" by (rule update_triv [OF c])
  have sw: "processPacket_switch cfg net clients client 0x32 2 ?P = (client, ?evs, True)"
    by (simp add: processPacket_switch_def case_PUBLISH_def be16_def Let_def sendPuback_def
          puback_def fk)
  have body: "processPacket_body cfg net key ?cl0
                = (clients, (if logPackets cfg then [LogRaw 3 ?P] else []) @ ?evs, True)"
    by (simp add: processPacket_body_frame [OF m i0 dec tot] same upd sw)
  have fin: "processPacket cfg net key clients = Some (clients, [])"
    by (rule processPacket_short [OF c]) (simp add: i)
  have run: "processPacket cfg net key ?cl0
               = Some (clients, (if logPackets cfg then [LogRaw 3 ?P] else []) @ ?evs)"
    by (simp add: processPacket_again [OF body] fin)
  have t: "tick cfg net (recvOn key ?P) clients
             = Some (clients, (if logPackets cfg then [LogRaw 3 ?P] else []) @ ?evs)"
    using fk k0 by (simp add: tick_recvOn [OF d c k0] run c)
  have s1: "sentTo key ((if logPackets cfg then [LogRaw 3 ?P] else []) @ ?evs)
              = [[0x40, 0x02, 0x00, 0x2A]]"
    by (simp add: sentTo_append sentTo_log sentTo_broadcast_sender)
  have bp: "buildPublish ?topic ?payload
              = [0x30, 0x0B, 0x00, 0x04, 0x74, 0x65, 0x73, 0x74, 0x68, 0x65, 0x6C, 0x6C, 0x6F]"
    by (simp add: buildPublish_def codec_eval Let_def)
  have s2: "sentTo k ((if logPackets cfg then [LogRaw 3 ?P] else []) @ ?evs)
              = (if ?topic \<in> subscriptions s
                 then [[0x30, 0x0B, 0x00, 0x04, 0x74, 0x65, 0x73, 0x74, 0x68, 0x65, 0x6C, 0x6C, 0x6F]]
                 else [])"
    if "(k, s) \<in> set clients" and "k \<noteq> key" for k s
    using that by (simp add: sentTo_append sentTo_log sentTo_broadcast_other [OF d] bp)
  from t s1 s2 show ?thesis by blast
qed

theorem publish_qos1_puback_and_fanout_witness:
  "\<exists>evs.
     tick defaultConfig (\<lambda>fd data. True)
       (recvOn 4 [0x32, 0x0D, 0x00, 0x04, 0x74, 0x65, 0x73, 0x74, 0x00, 0x2A,
                  0x68, 0x65, 0x6C, 0x6C, 0x6F])
       [(4, \<lparr>fd = 4, clientId = [0x41], subscriptions = {[0x74, 0x65, 0x73, 0x74]}, inbox = []\<rparr>),
        (5, \<lparr>fd = 5, clientId = [0x42], subscriptions = {[0x74, 0x65, 0x73, 0x74]}, inbox = []\<rparr>),
        (6, \<lparr>fd = 6, clientId = [0x43], subscriptions = {}, inbox = []\<rparr>)]
     = Some ([(4, \<lparr>fd = 4, clientId = [0x41], subscriptions = {[0x74, 0x65, 0x73, 0x74]}, inbox = []\<rparr>),
              (5, \<lparr>fd = 5, clientId = [0x42], subscriptions = {[0x74, 0x65, 0x73, 0x74]}, inbox = []\<rparr>),
              (6, \<lparr>fd = 6, clientId = [0x43], subscriptions = {}, inbox = []\<rparr>)], evs)
     \<and> sentTo 4 evs = [[0x40, 0x02, 0x00, 0x2A]]
     \<and> sentTo 5 evs
         = [[0x30, 0x0B, 0x00, 0x04, 0x74, 0x65, 0x73, 0x74, 0x68, 0x65, 0x6C, 0x6C, 0x6F]]
     \<and> sentTo 6 evs = []"
proof -
  let ?c4 = "\<lparr>fd = 4, clientId = [0x41], subscriptions = {[0x74, 0x65, 0x73, 0x74 :: byte]},
              inbox = []\<rparr>"
  let ?c5 = "\<lparr>fd = 5, clientId = [0x42], subscriptions = {[0x74, 0x65, 0x73, 0x74 :: byte]},
              inbox = []\<rparr>"
  let ?c6 = "\<lparr>fd = 6, clientId = [0x43], subscriptions = {} :: byte list set, inbox = []\<rparr>"
  let ?cl = "[(4 :: int, ?c4), (5, ?c5), (6, ?c6)]"
  have h1: "distinct (map fst ?cl)" by simp
  have h2: "map_of ?cl 4 = Some ?c4" by simp
  have h3: "fd ?c4 = 4" by simp
  have h4: "(0 :: int) \<le> 4" by simp
  have h5: "inbox ?c4 = []" by simp
  from publish_qos1_puback_and_fanout [OF h1 h2 h3 h4 h5, of defaultConfig "\<lambda>fd data. True"]
  show ?thesis by simp
qed

section \<open>No delivery to the publisher\<close>

text \<open>
  Claim C7, as amended. For every PUBLISH processed from session S and every
  configuration, S is not among the sessions the broadcast delivers the message to, even
  if S is subscribed to the topic: \<open>broadcast\<close> sends nothing to the sender's
  descriptor, a QoS-0 PUBLISH causes nothing at all to be sent to its publisher, and
  whatever the PUBLISH case sends to the publisher is a PUBACK. There is no reflect
  option: \<open>Config\<close> has no such field and \<open>parseArgs\<close> answers \<open>--reflect\<close> with the
  usage line and \<open>exit(1)\<close>.
\<close>

theorem publisher_never_among_recipients:
  "sentTo senderFd (broadcast net topic payload clients senderFd verbose) = []
   \<and> (drop_bit 1 header AND 0x03 = 0 \<longrightarrow>
        sentTo (fd client) (snd (case_PUBLISH cfg net clients client header offset packet)) = [])
   \<and> (\<forall>d \<in> set (sentTo (fd client)
                     (snd (case_PUBLISH cfg net clients client header offset packet))).
          \<exists>packetId. d = puback packetId)
   \<and> parseArgs_loop stoi (''--reflect'' # rest) cfg' = Inl UsageExit"
proof (intro conjI impI)
  show "sentTo senderFd (broadcast net topic payload clients senderFd verbose) = []"
    by (rule sentTo_broadcast_sender)
next
  assume "drop_bit 1 header AND 0x03 = 0"
  then show "sentTo (fd client)
               (snd (case_PUBLISH cfg net clients client header offset packet)) = []"
    by (simp add: case_PUBLISH_def Let_def sentTo_append sentTo_log sentTo_broadcast_sender)
next
  let ?s = "sentTo (fd client) (snd (case_PUBLISH cfg net clients client header offset packet))"
  have "?s = [] \<or> ?s = [puback (be16 packet (offset + 2 + unat (be16 packet offset)))]"
    by (simp add: case_PUBLISH_def Let_def sentTo_append sentTo_log sentTo_broadcast_sender
          sendPuback_def)
  then show "\<forall>d \<in> set ?s. \<exists>packetId. d = puback packetId"
    by auto
next
  show "parseArgs_loop stoi (''--reflect'' # rest) cfg' = Inl UsageExit"
    by simp
qed

theorem publisher_never_among_recipients_witness:
  "sentTo 4 (broadcast (\<lambda>fd data. True) [0x74, 0x65, 0x73, 0x74] [0x68, 0x69]
       [(4, \<lparr>fd = 4, clientId = [0x41], subscriptions = {[0x74, 0x65, 0x73, 0x74]}, inbox = []\<rparr>),
        (5, \<lparr>fd = 5, clientId = [0x42], subscriptions = {[0x74, 0x65, 0x73, 0x74]}, inbox = []\<rparr>)]
       4 True) = []
   \<and> drop_bit 1 (0x30 :: byte) AND 0x03 = 0
   \<and> sentTo 4 (snd (case_PUBLISH defaultConfig (\<lambda>fd data. True)
       [(4, \<lparr>fd = 4, clientId = [0x41], subscriptions = {[0x74, 0x65, 0x73, 0x74]}, inbox = []\<rparr>),
        (5, \<lparr>fd = 5, clientId = [0x42], subscriptions = {[0x74, 0x65, 0x73, 0x74]}, inbox = []\<rparr>)]
       \<lparr>fd = 4, clientId = [0x41], subscriptions = {[0x74, 0x65, 0x73, 0x74]}, inbox = []\<rparr>
       0x30 2 [0x30, 0x08, 0x00, 0x04, 0x74, 0x65, 0x73, 0x74, 0x68, 0x69])) = []
   \<and> parseArgs_loop (\<lambda>s. Inl StoiInvalidArgument) [''--reflect'', ''--quiet''] defaultConfig
       = Inl UsageExit"
proof -
  let ?c4 = "\<lparr>fd = 4, clientId = [0x41], subscriptions = {[0x74, 0x65, 0x73, 0x74 :: byte]},
              inbox = []\<rparr>"
  let ?c5 = "\<lparr>fd = 5, clientId = [0x42], subscriptions = {[0x74, 0x65, 0x73, 0x74 :: byte]},
              inbox = []\<rparr>"
  have q: "drop_bit 1 (0x30 :: byte) AND 0x03 = 0" by simp
  note t = publisher_never_among_recipients [of 4 "\<lambda>fd data. True" "[0x74, 0x65, 0x73, 0x74]"
      "[0x68, 0x69]" "[(4, ?c4), (5, ?c5)]" True "0x30" ?c4 defaultConfig 2
      "[0x30, 0x08, 0x00, 0x04, 0x74, 0x65, 0x73, 0x74, 0x68, 0x69]"
      "\<lambda>s. Inl StoiInvalidArgument" "[''--quiet'']" defaultConfig]
  from t q show ?thesis by simp
qed

text \<open>
  The claim as the specification states it, with a reflect option that includes a
  subscribed publisher, fails on the code: the command line \<open>--reflect\<close> ends the
  program with the usage line, and with the logging options switched on a subscribed
  publisher of a QoS-0 PUBLISH is still sent nothing.
\<close>

theorem reflect_option_counterexample:
  "parseArgs (\<lambda>s. Inl StoiInvalidArgument) [''mqtt_debug_server'', ''--reflect'']
     = Inl UsageExit
   \<and> tick (defaultConfig\<lparr>logPackets := True, traceSubscriptions := True\<rparr>) (\<lambda>fd data. True)
       (recvOn 4 [0x30, 0x08, 0x00, 0x04, 0x74, 0x65, 0x73, 0x74, 0x68, 0x69])
       [(4, \<lparr>fd = 4, clientId = [0x41], subscriptions = {[0x74, 0x65, 0x73, 0x74]}, inbox = []\<rparr>),
        (5, \<lparr>fd = 5, clientId = [0x42], subscriptions = {[0x74, 0x65, 0x73, 0x74]}, inbox = []\<rparr>)]
     = Some ([(4, \<lparr>fd = 4, clientId = [0x41], subscriptions = {[0x74, 0x65, 0x73, 0x74]},
                    inbox = []\<rparr>),
              (5, \<lparr>fd = 5, clientId = [0x42], subscriptions = {[0x74, 0x65, 0x73, 0x74]},
                    inbox = []\<rparr>)],
             [LogRaw 3 [0x30, 0x08, 0x00, 0x04, 0x74, 0x65, 0x73, 0x74, 0x68, 0x69],
              LogPublish [0x41] [0x74, 0x65, 0x73, 0x74] [0x68, 0x69],
              Send 5 [0x30, 0x08, 0x00, 0x04, 0x74, 0x65, 0x73, 0x74, 0x68, 0x69],
              LogForwarded [0x42] [0x74, 0x65, 0x73, 0x74]])"
  by (simp add: parseArgs_def codec_eval handler_eval tick_eval)

section \<open>A frame of reserved type\<close>

text \<open>
  Claim C4, as amended. The broker has no disconnect-on-error option: \<open>parseArgs\<close>
  answers \<open>--disconnect-on-error\<close> with the usage line and \<open>exit(1)\<close>. Under every
  configuration, when a session with an empty inbox sends the fixed header \<open>00 00\<close>
  (reserved type 0), the broker consumes the two bytes, logs the warning for an unhandled
  packet type unless \<open>quiet\<close> is set, sends nothing and closes nothing: after the loop
  iteration the session is still in the table with its descriptor, and every other
  session is as it was.
\<close>

theorem reserved_type_keeps_session_open:
  assumes d: "distinct (map fst clients)" and c: "map_of clients key = Some client"
    and fk: "fd client = key" and k0: "0 \<le> key" and i: "inbox client = []"
  shows "tick cfg net (recvOn key [0x00, 0x00]) clients
           = Some (clients,
                   (if logPackets cfg then [LogRaw 0 [0x00, 0x00]] else [])
                   @ log (LogWarnUnhandled 0) (quiet cfg))
         \<and> parseArgs_loop stoi (''--disconnect-on-error'' # rest) cfg' = Inl UsageExit"
proof -
  let ?P = "[0x00, 0x00] :: byte list"
  let ?evs = "(if logPackets cfg then [LogRaw 0 ?P] else []) @ log (LogWarnUnhandled 0) (quiet cfg)"
  have dec: "decodeRemainingLength ?P 1 = (True, 2, 0)" by (simp add: codec_eval)
  have tot: "unat ((of_nat 2 :: 64 word) + 0) = length ?P" by simp
  let ?c0 = "client\<lparr>inbox := inbox client @ ?P\<rparr>"
  let ?cl0 = "AList.update key ?c0 clients"
  have m: "map_of ?cl0 key = Some ?c0" by (simp add: update_conv')
  have i0: "inbox ?c0 = ?P @ []" by (simp add: i)
  have same: "client\<lparr>inbox := []\<rparr> = client" using i by simp
  have upd: "AList.update key client clients = clients" by (rule update_triv [OF c])
  have body: "processPacket_body cfg net key ?cl0 = (clients, ?evs, True)"
    by (simp add: processPacket_body_frame [OF m i0 dec tot] same upd processPacket_switch_def)
  have fin: "processPacket cfg net key clients = Some (clients, [])"
    by (rule processPacket_short [OF c]) (simp add: i)
  have run: "processPacket cfg net key ?cl0 = Some (clients, ?evs)"
    by (simp add: processPacket_again [OF body] fin)
  have "tick cfg net (recvOn key ?P) clients = Some (clients, ?evs)"
    using fk k0 by (simp add: tick_recvOn [OF d c k0] run c)
  then show ?thesis by simp
qed

theorem reserved_type_keeps_session_open_witness:
  "tick (defaultConfig\<lparr>logPackets := True\<rparr>) (\<lambda>fd data. True) (recvOn 4 [0x00, 0x00])
     [(4, \<lparr>fd = 4, clientId = [0x41], subscriptions = {}, inbox = []\<rparr>),
      (5, \<lparr>fd = 5, clientId = [0x42], subscriptions = {[0x74, 0x65, 0x73, 0x74]}, inbox = []\<rparr>)]
   = Some ([(4, \<lparr>fd = 4, clientId = [0x41], subscriptions = {}, inbox = []\<rparr>),
            (5, \<lparr>fd = 5, clientId = [0x42], subscriptions = {[0x74, 0x65, 0x73, 0x74]},
                  inbox = []\<rparr>)],
           [LogRaw 0 [0x00, 0x00], LogWarnUnhandled 0])
   \<and> parseArgs_loop (\<lambda>s. Inl StoiInvalidArgument) [''--disconnect-on-error''] defaultConfig
       = Inl UsageExit"
proof -
  let ?c4 = "\<lparr>fd = 4, clientId = [0x41], subscriptions = {} :: byte list set, inbox = []\<rparr>"
  let ?c5 = "\<lparr>fd = 5, clientId = [0x42], subscriptions = {[0x74, 0x65, 0x73, 0x74 :: byte]},
              inbox = []\<rparr>"
  let ?cl = "[(4 :: int, ?c4), (5, ?c5)]"
  have h1: "distinct (map fst ?cl)" by simp
  have h2: "map_of ?cl 4 = Some ?c4" by simp
  have h3: "fd ?c4 = 4" by simp
  have h4: "(0 :: int) \<le> 4" by simp
  have h5: "inbox ?c4 = []" by simp
  from reserved_type_keeps_session_open [OF h1 h2 h3 h4 h5,
      of "defaultConfig\<lparr>logPackets := True\<rparr>" "\<lambda>fd data. True"
         "\<lambda>s. Inl StoiInvalidArgument" "[]" defaultConfig]
  show ?thesis by (simp add: defaultConfig_def log_def)
qed

text \<open>
  The claim as the specification states it fails on the code: the command line
  \<open>--disconnect-on-error\<close> ends the program with the usage line, and the session that
  sent \<open>00 00\<close> stays in the table with its socket open.
\<close>

theorem disconnect_on_error_counterexample:
  "parseArgs (\<lambda>s. Inl StoiInvalidArgument) [''mqtt_debug_server'', ''--disconnect-on-error'']
     = Inl UsageExit
   \<and> tick defaultConfig (\<lambda>fd data. True) (recvOn 4 [0x00, 0x00])
       [(4, \<lparr>fd = 4, clientId = [0x41], subscriptions = {}, inbox = []\<rparr>)]
     = Some ([(4, \<lparr>fd = 4, clientId = [0x41], subscriptions = {}, inbox = []\<rparr>)],
             [LogWarnUnhandled 0])"
  by (simp add: parseArgs_def codec_eval handler_eval tick_eval)

section \<open>Packets with a truncated body\<close>

text \<open>
  Claim C3, as amended. When a complete packet of type CONNECT, PUBLISH or SUBSCRIBE has
  a body too short for its variable header, the broker removes that packet's bytes from
  the session's inbox, logs no warning and sends no response for it, and goes on with
  the bytes that follow: processing the inbox \<open>frame @ rest\<close> is processing the inbox
  \<open>rest\<close>, preceded by the raw line of the frame when \<open>logPackets\<close> is set.
\<close>

theorem truncated_body_is_dropped_silently:
  assumes c: "map_of clients key = Some client"
    and i: "inbox client = frame @ rest"
    and f: "completeFrame frame" and t: "truncatedBody frame"
  shows "processPacket cfg net key clients =
     Option.bind (processPacket cfg net key (AList.update key (client\<lparr>inbox := rest\<rparr>) clients))
       (\<lambda>(clients', out).
          Some (clients',
                (if logPackets cfg then [LogRaw (drop_bit 4 (frame ! 0)) frame] else []) @ out))"
proof -
  from f obtain off len where dec: "decodeRemainingLength frame 1 = (True, off, len)"
    and tot: "unat ((of_nat off :: 64 word) + len) = length frame"
    by (rule completeFrame_decode)
  have hs: "headerSize frame = off" unfolding headerSize_def dec by simp
  let ?c1 = "client\<lparr>inbox := rest\<rparr>"
  let ?ty = "drop_bit 4 (frame ! 0)"
  from t have ty: "?ty = 1 \<or> ?ty = 3 \<or> ?ty = 8"
    by (auto simp: truncatedBody_def Let_def split: if_splits)
  have ty15: "?ty AND 0x0F = ?ty"
    using ty by auto
  have sw: "processPacket_switch cfg net (AList.update key ?c1 clients) ?c1 (frame ! 0) off frame
              = (?c1, [], True)"
    using t ty unfolding truncatedBody_def hs processPacket_switch_def
    by (auto simp: Let_def case_CONNECT_def case_PUBLISH_def case_SUBSCRIBE_def
          split: if_splits)
  have body: "processPacket_body cfg net key clients
                = (AList.update key ?c1 clients,
                   (if logPackets cfg then [LogRaw ?ty frame] else []), True)"
    by (simp add: processPacket_body_frame [OF c i dec tot] sw ty15)
  show ?thesis
    by (simp add: processPacket_again [OF body])
qed

theorem truncated_body_is_dropped_silently_witness:
  "processPacket defaultConfig (\<lambda>fd data. True) 4
     [(4, \<lparr>fd = 4, clientId = [0x41], subscriptions = {},
            inbox = [0x30, 0x02, 0x00, 0x05, 0xC0, 0x00]\<rparr>)]
   = Some ([(4, \<lparr>fd = 4, clientId = [0x41], subscriptions = {}, inbox = []\<rparr>)],
           [LogPing [0x41], Send 4 [0xD0, 0x00]])"
proof -
  let ?c = "\<lparr>fd = 4, clientId = [0x41], subscriptions = {} :: byte list set,
             inbox = [0x30, 0x02, 0x00, 0x05, 0xC0, 0x00]\<rparr>"
  have h1: "map_of [(4 :: int, ?c)] 4 = Some ?c" by simp
  have h2: "inbox ?c = [0x30, 0x02, 0x00, 0x05] @ [0xC0, 0x00]" by simp
  have h3: "completeFrame [0x30, 0x02, 0x00, 0x05]"
    by (simp add: completeFrame_def codec_eval)
  have h4: "truncatedBody [0x30, 0x02, 0x00, 0x05]"
    by (simp add: truncatedBody_def headerSize_def codec_eval be16_def)
  have r: "processPacket defaultConfig (\<lambda>fd data. True) 4
             (AList.update 4 (?c\<lparr>inbox := [0xC0, 0x00]\<rparr>) [(4, ?c)])
           = Some ([(4, \<lparr>fd = 4, clientId = [0x41], subscriptions = {}, inbox = []\<rparr>)],
                   [LogPing [0x41], Send 4 [0xD0, 0x00]])"
    by (simp add: codec_eval handler_eval defaultConfig_def)
  show ?thesis
    unfolding truncated_body_is_dropped_silently [OF h1 h2 h3 h4] r
    by (simp add: defaultConfig_def)
qed

text \<open>
  The claim as the specification states it fails on the code. The complete PUBLISH
  \<open>30 02 00 05\<close>, whose topic length exceeds its body, is removed without any warning
  being logged. And after the bytes \<open>30 FF FF FF FF FF\<close>, a Remaining Length with five
  continuation bytes, \<open>processPacket\<close> returns as it does for an incomplete frame:
  the bytes stay in the inbox and the PINGREQ \<open>C0 00\<close> behind them is not answered.
\<close>

theorem malformed_packet_counterexample:
  "tick defaultConfig (\<lambda>fd data. True) (recvOn 4 [0x30, 0x02, 0x00, 0x05])
     [(4, \<lparr>fd = 4, clientId = [0x41], subscriptions = {}, inbox = []\<rparr>)]
     = Some ([(4, \<lparr>fd = 4, clientId = [0x41], subscriptions = {}, inbox = []\<rparr>)], [])
   \<and> tick defaultConfig (\<lambda>fd data. True)
       (recvOn 4 [0x30, 0xFF, 0xFF, 0xFF, 0xFF, 0xFF, 0xC0, 0x00])
       [(4, \<lparr>fd = 4, clientId = [0x41], subscriptions = {}, inbox = []\<rparr>)]
     = Some ([(4, \<lparr>fd = 4, clientId = [0x41], subscriptions = {},
                    inbox = [0x30, 0xFF, 0xFF, 0xFF, 0xFF, 0xFF, 0xC0, 0x00]\<rparr>)], [])"
  by (simp add: codec_eval handler_eval tick_eval)

section \<open>Fragmented delivery\<close>

text \<open>
  Claim C8. For any complete packet P delivered to a session's inbox as a sequence of
  byte chunks under any partition of P, the frame extracted and the resulting broker
  state and effects are those of delivering P in one contiguous read. The session is in
  the table under a non-negative key, with a non-negative descriptor and an empty inbox; the chunks are not empty
  (\<open>recv\<close> returning no bytes closes the session) and their concatenation is P; each
  chunk is read in a loop iteration of its own. Reading P at once returns, and reading
  the chunks one after the other gives the same table and the same effects.
\<close>

theorem fragmentation_invariance:
  assumes d: "distinct (map fst clients)" and c: "map_of clients key = Some client"
    and k0: "0 \<le> key" and fk: "0 \<le> fd client" and i: "inbox client = []"
    and f: "completeFrame P" and p: "concat chunks = P" and n: "\<forall>c \<in> set chunks. c \<noteq> []"
  shows "ticks cfg net (map (recvOn key) chunks) clients = tick cfg net (recvOn key P) clients
         \<and> (\<exists>r. tick cfg net (recvOn key P) clients = Some r)"
proof -
  from f have "2 \<le> length P" by (rule completeFrame_decode)
  with p have ne: "chunks \<noteq> []" and pne: "P \<noteq> []" by auto
  have cf: "completeFrame (inbox client @ concat chunks)" using i p f by simp
  from fragments_as_one_read [OF ne n d c fk cf k0]
  have 1: "ticks cfg net (map (recvOn key) chunks) clients = tick cfg net (recvOn key P) clients"
    by (simp add: p)
  let ?c0 = "client\<lparr>inbox := inbox client @ P\<rparr>"
  have "\<exists>r. processPacket cfg net key (AList.update key ?c0 clients) = Some r"
    by (rule processPacket_one_frame [of _ _ ?c0, OF _ _ f]) (simp_all add: update_conv' i)
  then have 2: "\<exists>r. tick cfg net (recvOn key P) clients = Some r"
    by (auto simp: tick_recvOn [OF d c k0 pne])
  from 1 2 show ?thesis by simp
qed

theorem fragmentation_invariance_witness:
  "ticks defaultConfig (\<lambda>fd data. True)
     (map (recvOn 4) [[0x82, 0x09, 0x00], [0x01, 0x00, 0x04, 0x74, 0x65, 0x73, 0x74, 0x00]])
     [(4, \<lparr>fd = 4, clientId = [0x41], subscriptions = {}, inbox = []\<rparr>)]
   = Some ([(4, \<lparr>fd = 4, clientId = [0x41], subscriptions = {[0x74, 0x65, 0x73, 0x74]},
                  inbox = []\<rparr>)],
           [Send 4 [0x90, 0x03, 0x00, 0x01, 0x00]])
   \<and> tick defaultConfig (\<lambda>fd data. True)
       (recvOn 4 [0x82, 0x09, 0x00, 0x01, 0x00, 0x04, 0x74, 0x65, 0x73, 0x74, 0x00])
       [(4, \<lparr>fd = 4, clientId = [0x41], subscriptions = {}, inbox = []\<rparr>)]
   = Some ([(4, \<lparr>fd = 4, clientId = [0x41], subscriptions = {[0x74, 0x65, 0x73, 0x74]},
                  inbox = []\<rparr>)],
           [Send 4 [0x90, 0x03, 0x00, 0x01, 0x00]])"
proof -
  let ?c = "\<lparr>fd = 4, clientId = [0x41], subscriptions = {} :: byte list set, inbox = []\<rparr>"
  let ?P = "[0x82, 0x09, 0x00, 0x01, 0x00, 0x04, 0x74, 0x65, 0x73, 0x74, 0x00] :: byte list"
  let ?chunks = "[[0x82, 0x09, 0x00], [0x01, 0x00, 0x04, 0x74, 0x65, 0x73, 0x74, 0x00]]
                 :: byte list list"
  have h1: "distinct (map fst [(4 :: int, ?c)])" by simp
  have h2: "map_of [(4 :: int, ?c)] 4 = Some ?c" by simp
  have h0: "(0 :: int) \<le> 4" by simp
  have h3: "0 \<le> fd ?c" by simp
  have h4: "inbox ?c = []" by simp
  have h5: "completeFrame ?P" by (simp add: completeFrame_def codec_eval)
  have h6: "concat ?chunks = ?P" by simp
  have h7: "\<forall>c \<in> set ?chunks. c \<noteq> []" by simp
  have one: "tick defaultConfig (\<lambda>fd data. True) (recvOn 4 ?P) [(4, ?c)]
               = Some ([(4, \<lparr>fd = 4, clientId = [0x41],
                              subscriptions = {[0x74, 0x65, 0x73, 0x74]}, inbox = []\<rparr>)],
                       [Send 4 [0x90, 0x03, 0x00, 0x01, 0x00]])"
    by (simp add: codec_eval handler_eval tick_eval)
  from fragmentation_invariance [OF h1 h2 h0 h3 h4 h5 h6 h7, of defaultConfig "\<lambda>fd data. True"]
    one
  show ?thesis by simp
qed

section \<open>No complete frame stays in an inbox\<close>

text \<open>
  Claim C9. For every session still present after a server-loop tick, the session's inbox
  holds no complete frame: for any prefix of the inbox whose fixed header and Remaining
  Length decode successfully, with header size \<open>off\<close> and Remaining Length \<open>len\<close>, the
  inbox contains fewer than \<open>off + len\<close> bytes.

  First part, the tick returns and consumes. The table has the keys of a \<open>std::map\<close> in
  order and no complete frame in any inbox (as the empty table has, and as this very
  conclusion gives for the next tick); \<open>accept\<close> hands out a descriptor that is not in
  the table; and for each session that is read, its inbox followed by the bytes read is
  a sequence \<open>frames k\<close> of complete frames followed by bytes \<open>tail k\<close> on which the loop
  waits. Then the tick returns, no session left in the table holds a complete frame, and
  each session that was read and is left in the table holds exactly \<open>tail k\<close>: every
  complete frame was taken out of its inbox.

  Second part, without any condition on what is read: in every table the server reaches
  from the empty one by ticks that return, no inbox holds a complete frame.
\<close>

theorem no_complete_frame_left_in_inbox:
  "(sorted_wrt (<) (map fst clients)
      \<and> (\<forall>(k, s) \<in> set clients. awaitsData (inbox s))
      \<and> (\<forall>nf. accepted inp = Some nf \<longrightarrow> nf \<notin> set (map fst clients))
      \<and> (\<forall>(k, s) \<in> set clients. \<forall>chunk. readable inp k = Some chunk \<longrightarrow>
            inbox s @ chunk = concat (frames k) @ tail k
            \<and> (\<forall>f \<in> set (frames k). completeFrame f) \<and> awaitsData (tail k))
    \<longrightarrow> (\<exists>clients' evs'.
          tick cfg net inp clients = Some (clients', evs')
          \<and> sorted_wrt (<) (map fst clients')
          \<and> (\<forall>(k, s) \<in> set clients'.
                awaitsData (inbox s)
                \<and> (\<forall>q off len. prefix q (inbox s) \<and> decodeRemainingLength q 1 = (True, off, len)
                      \<longrightarrow> length (inbox s) < off + unat len)
                \<and> (\<forall>chunk. k \<in> set (map fst clients) \<and> 0 \<le> k \<and> readable inp k = Some chunk
                      \<longrightarrow> inbox s = tail k))))
   \<and> (ticks cfg net inps [] = Some (table, evs)
      \<longrightarrow> (\<forall>(k, s) \<in> set table. \<forall>q off len.
              prefix q (inbox s) \<and> decodeRemainingLength q 1 = (True, off, len)
              \<longrightarrow> length (inbox s) < off + unat len))"
proof (intro conjI impI)
  assume h: "sorted_wrt (<) (map fst clients)
      \<and> (\<forall>(k, s) \<in> set clients. awaitsData (inbox s))
      \<and> (\<forall>nf. accepted inp = Some nf \<longrightarrow> nf \<notin> set (map fst clients))
      \<and> (\<forall>(k, s) \<in> set clients. \<forall>chunk. readable inp k = Some chunk \<longrightarrow>
            inbox s @ chunk = concat (frames k) @ tail k
            \<and> (\<forall>f \<in> set (frames k). completeFrame f) \<and> awaitsData (tail k))"
  then have srt: "sorted_wrt (<) (map fst clients)"
    and inv: "\<forall>(k, s) \<in> set clients. awaitsData (inbox s)"
    and acc: "\<forall>nf. accepted inp = Some nf \<longrightarrow> nf \<notin> set (map fst clients)"
    and frm: "\<forall>(k, s) \<in> set clients. \<forall>chunk. readable inp k = Some chunk \<longrightarrow>
            inbox s @ chunk = concat (frames k) @ tail k
            \<and> (\<forall>f \<in> set (frames k). completeFrame f) \<and> awaitsData (tail k)"
    by simp_all
  from tick_frames [OF srt inv acc frm, of cfg net]
  obtain clients' evs' where t: "tick cfg net inp clients = Some (clients', evs')"
    and s': "sorted_wrt (<) (map fst clients')"
    and p: "\<forall>(k, s) \<in> set clients'.
                 awaitsData (inbox s)
                 \<and> (\<forall>chunk. k \<in> set (map fst clients) \<and> 0 \<le> k \<and> readable inp k = Some chunk
                       \<longrightarrow> inbox s = tail k)"
    by blast
  have "\<forall>(k, s) \<in> set clients'.
          awaitsData (inbox s)
          \<and> (\<forall>q off len. prefix q (inbox s) \<and> decodeRemainingLength q 1 = (True, off, len)
                \<longrightarrow> length (inbox s) < off + unat len)
          \<and> (\<forall>chunk. k \<in> set (map fst clients) \<and> 0 \<le> k \<and> readable inp k = Some chunk
                \<longrightarrow> inbox s = tail k)"
    using p awaitsData_no_frame by fast
  with t s' show "\<exists>clients' evs'.
          tick cfg net inp clients = Some (clients', evs')
          \<and> sorted_wrt (<) (map fst clients')
          \<and> (\<forall>(k, s) \<in> set clients'.
                awaitsData (inbox s)
                \<and> (\<forall>q off len. prefix q (inbox s) \<and> decodeRemainingLength q 1 = (True, off, len)
                      \<longrightarrow> length (inbox s) < off + unat len)
                \<and> (\<forall>chunk. k \<in> set (map fst clients) \<and> 0 \<le> k \<and> readable inp k = Some chunk
                      \<longrightarrow> inbox s = tail k))"
    by blast
next
  assume r: "ticks cfg net inps [] = Some (table, evs)"
  from ticks_props [OF r]
  have inv: "\<forall>k s. map_of table k = Some s \<longrightarrow> awaitsData (inbox s)"
    and srt: "sorted_wrt (<) (map fst table)" by simp_all
  from srt have d: "distinct (map fst table)" by (simp add: strict_sorted_iff)
  show "\<forall>(k, s) \<in> set table. \<forall>q off len.
          prefix q (inbox s) \<and> decodeRemainingLength q 1 = (True, off, len)
          \<longrightarrow> length (inbox s) < off + unat len"
  proof (intro ballI, clarify)
    fix k s q off len
    assume "(k, s) \<in> set table" and pq: "prefix q (inbox s)"
      and dq: "decodeRemainingLength q 1 = (True, off, len)"
    with d have "map_of table k = Some s" by simp
    with inv have "awaitsData (inbox s)" by blast
    from awaitsData_no_frame [OF this pq dq] show "length (inbox s) < off + unat len" .
  qed
qed

theorem no_complete_frame_left_in_inbox_witness:
  "tick defaultConfig (\<lambda>fd data. True) (recvOn 4 [0x00, 0x82, 0x09, 0x00])
     [(4, \<lparr>fd = 4, clientId = [0x41], subscriptions = {}, inbox = [0xC0]\<rparr>),
      (5, \<lparr>fd = 5, clientId = [0x42], subscriptions = {}, inbox = []\<rparr>)]
   = Some ([(4, \<lparr>fd = 4, clientId = [0x41], subscriptions = {}, inbox = [0x82, 0x09, 0x00]\<rparr>),
            (5, \<lparr>fd = 5, clientId = [0x42], subscriptions = {}, inbox = []\<rparr>)],
           [LogPing [0x41], Send 4 [0xD0, 0x00]])
   \<and> completeFrame [0xC0, 0x00]
   \<and> awaitsData [0x82, 0x09, 0x00]
   \<and> prefix [0x82, 0x09] [0x82, 0x09, 0x00]
   \<and> decodeRemainingLength [0x82, 0x09] 1 = (True, 2, 9)
   \<and> length [0x82, 0x09, 0x00 :: byte] < 2 + unat (9 :: 64 word)
   \<and> ticks defaultConfig (\<lambda>fd data. True)
       [\<lparr>accepted = Some 4, readable = (\<lambda>k. None)\<rparr>, recvOn 4 [0xC0],
        recvOn 4 [0x00, 0x82, 0x09, 0x00]] []
     = Some ([(4, \<lparr>fd = 4, clientId = [0x3F], subscriptions = {},
                    inbox = [0x82, 0x09, 0x00]\<rparr>)],
             [LogAccept 4, LogPing [0x3F], Send 4 [0xD0, 0x00]])"
proof -
  let ?c4 = "\<lparr>fd = 4, clientId = [0x41], subscriptions = {} :: byte list set, inbox = [0xC0]\<rparr>"
  let ?c4' = "\<lparr>fd = 4, clientId = [0x41], subscriptions = {} :: byte list set,
               inbox = [0x82, 0x09, 0x00]\<rparr>"
  let ?c5 = "\<lparr>fd = 5, clientId = [0x42], subscriptions = {} :: byte list set, inbox = []\<rparr>"
  let ?d4 = "\<lparr>fd = 4, clientId = [0x3F], subscriptions = {} :: byte list set,
              inbox = [0x82, 0x09, 0x00]\<rparr>"
  let ?cl = "[(4 :: int, ?c4), (5, ?c5)]"
  let ?inp = "recvOn 4 [0x00, 0x82, 0x09, 0x00]"
  let ?frames = "\<lambda>k :: int. if k = 4 then [[0xC0, 0x00 :: byte]] else []"
  let ?tail = "\<lambda>k :: int. if k = 4 then [0x82, 0x09, 0x00 :: byte] else []"
  let ?net = "\<lambda>(fd :: int) (data :: byte list). True"
  let ?inps = "[\<lparr>accepted = Some 4, readable = (\<lambda>k. None)\<rparr>, recvOn 4 [0xC0], ?inp]"
  have cf: "completeFrame [0xC0, 0x00]" by (simp add: completeFrame_def codec_eval)
  have aw: "awaitsData [0x82, 0x09, 0x00]" "awaitsData [0xC0]" "awaitsData []"
    by (simp_all add: awaitsData_def codec_eval)
  have h1: "sorted_wrt (<) (map fst ?cl)" by simp
  have h2: "\<forall>(k, s) \<in> set ?cl. awaitsData (inbox s)" using aw by simp
  have h3: "\<forall>nf. accepted ?inp = Some nf \<longrightarrow> nf \<notin> set (map fst ?cl)"
    by (simp add: recvOn_def)
  have h4: "\<forall>(k, s) \<in> set ?cl. \<forall>chunk. readable ?inp k = Some chunk \<longrightarrow>
              inbox s @ chunk = concat (?frames k) @ ?tail k
              \<and> (\<forall>f \<in> set (?frames k). completeFrame f) \<and> awaitsData (?tail k)"
    using cf aw by (simp add: recvOn_def)
  have run: "ticks defaultConfig ?net ?inps [] = Some ([(4, ?d4)],
               [LogAccept 4, LogPing [0x3F], Send 4 [0xD0, 0x00]])"
    by (simp add: codec_eval handler_eval tick_eval)
  have one: "tick defaultConfig ?net ?inp ?cl
               = Some ([(4, ?c4'), (5, ?c5)], [LogPing [0x41], Send 4 [0xD0, 0x00]])"
    by (simp add: codec_eval handler_eval tick_eval)
  have pq: "prefix [0x82, 0x09] (inbox ?d4)" by simp
  have dq: "decodeRemainingLength [0x82, 0x09] 1 = (True, 2, 9)" by (simp add: codec_eval)
  note t = no_complete_frame_left_in_inbox [where clients = ?cl and inp = ?inp
      and frames = ?frames and tail = ?tail and cfg = defaultConfig and net = ?net
      and inps = ?inps and table = "[(4, ?d4)]"
      and evs = "[LogAccept 4, LogPing [0x3F], Send 4 [0xD0, 0x00]]"]
  have hyps: "sorted_wrt (<) (map fst ?cl)
      \<and> (\<forall>(k, s) \<in> set ?cl. awaitsData (inbox s))
      \<and> (\<forall>nf. accepted ?inp = Some nf \<longrightarrow> nf \<notin> set (map fst ?cl))
      \<and> (\<forall>(k, s) \<in> set ?cl. \<forall>chunk. readable ?inp k = Some chunk \<longrightarrow>
            inbox s @ chunk = concat (?frames k) @ ?tail k
            \<and> (\<forall>f \<in> set (?frames k). completeFrame f) \<and> awaitsData (?tail k))"
    by (intro conjI h1 h2 h3 h4)
  from t [THEN conjunct1, THEN mp, OF hyps] obtain clients' evs' where
    r: "tick defaultConfig ?net ?inp ?cl = Some (clients', evs')"
    and p: "\<forall>(k, s) \<in> set clients'. awaitsData (inbox s)
              \<and> (\<forall>q off len. prefix q (inbox s) \<and> decodeRemainingLength q 1 = (True, off, len)
                    \<longrightarrow> length (inbox s) < off + unat len)
              \<and> (\<forall>chunk. k \<in> set (map fst ?cl) \<and> 0 \<le> k \<and> readable ?inp k = Some chunk
                    \<longrightarrow> inbox s = ?tail k)"
    by (elim exE conjE)
  from r one have "clients' = [(4, ?c4'), (5, ?c5)]" by simp
  with p have "inbox ?c4' = ?tail 4" by (simp add: recvOn_def)
  moreover from t [THEN conjunct2, THEN mp, OF run] pq dq
  have "length (inbox ?d4) < 2 + unat (9 :: 64 word)"
    by fastforce
  ultimately show ?thesis using one run cf aw dq by simp
qed

end
